theory Spec2Isabelle
  imports Main
begin

section \<open>The content script of the LINE puppet: model\<close>

text \<open>
  A shallow embedding of the parts of \<^verbatim>\<open>src/puppet/src/contentscript.js\<close> (class
  \<^verbatim>\<open>MautrixController\<close>) that turn the chat timeline into messages and receipts.
  Message IDs (\<^verbatim>\<open>data-local-id\<close>) and timestamps are integers; \<^verbatim>\<open>null\<close> and
  \<^verbatim>\<open>undefined\<close> are \<open>None\<close>; a thrown exception is the \<open>Inl\<close> branch of a sum.
  Method names keep the source's spelling without the leading underscore.
\<close>

subsection \<open>Chat types\<close>

datatype ChatTypeEnum = DIRECT | GROUP | ROOM

text \<open>
  What a method can throw: the string thrown by \<^verbatim>\<open>getChatType\<close>, and the runtime's
  TypeError for a property read on \<^verbatim>\<open>null\<close>/\<^verbatim>\<open>undefined\<close> or a call of a
  method that does not exist.
\<close>

datatype error = InvalidChatID string | TypeError

text \<open>\<^verbatim>\<open>String.prototype.charAt\<close>: the one-character string at the index, or the empty string.\<close>

definition charAt :: "string \<Rightarrow> nat \<Rightarrow> string" where
  "charAt s i = take 1 (drop i s)"

definition getChatType :: "string \<Rightarrow> error + ChatTypeEnum" where
  "getChatType cid =
     (let c = charAt cid 0 in
      if c = ''u'' then Inr DIRECT
      else if c = ''c'' then Inr GROUP
      else if c = ''r'' then Inr ROOM
      else Inl (InvalidChatID cid))"

text \<open>
  \<^verbatim>\<open>this.getChatType(this.getCurrentChatID())\<close>: the current chat ID is \<^verbatim>\<open>null\<close> when no
  chat is selected, and \<^verbatim>\<open>null.charAt\<close> throws.
\<close>

definition getCurrentChatType :: "string option \<Rightarrow> error + ChatTypeEnum" where
  "getCurrentChatType cur = (case cur of None \<Rightarrow> Inl TypeError | Some cid \<Rightarrow> getChatType cid)"

subsection \<open>Receipt counts\<close>

text \<open>The regular expression class \<^verbatim>\<open>\d\<close>: the ten ASCII digits.\<close>

definition isDigit :: "char \<Rightarrow> bool" where
  "isDigit c = (c \<in> set ''0123456789'')"

text \<open>
  \<^verbatim>\<open>innerText.match(/\d+/)\<close>: the leftmost match, extended as far as digits go;
  \<open>None\<close> is the \<^verbatim>\<open>null\<close> of a text without a digit.
\<close>

definition matchDigits :: "string \<Rightarrow> string option" where
  "matchDigits s =
     (case dropWhile (\<lambda>c. \<not> isDigit c) s of
        [] \<Rightarrow> None
      | c # cs \<Rightarrow> Some (c # takeWhile isDigit cs))"

definition digitVal :: "char \<Rightarrow> int" where
  "digitVal c = of_char c - 48"

text \<open>The integer that a run of decimal digits denotes.\<close>

definition mathInt :: "string \<Rightarrow> int" where
  "mathInt ds = foldl (\<lambda>n c. 10 * n + digitVal c) 0 ds"

text \<open>
  The numbers of the script that the receipt counts and the tiers are: JavaScript numbers
  are doubles, and the ones that occur here are integers and \<^verbatim>\<open>Infinity\<close>.
\<close>

datatype jsnumber = Num int | Infinity

text \<open>
  The double nearest to an integer \<open>n\<close> that is not negative. A double has 53 significant bits: \<open>ulp n\<close>
  is the distance between neighbouring doubles around \<open>n\<close> (1 below \<open>2^53\<close>, doubled with
  every further bit), \<open>n\<close> is rounded to the nearest multiple of it, a tie to the multiple
  with the even factor, and a result beyond the largest double (\<open>2^1024\<close> or more) is
  \<^verbatim>\<open>Infinity\<close>.
\<close>

function ulp :: "int \<Rightarrow> int" where
  "ulp n = (if n < 2 ^ 53 then 1 else 2 * ulp (n div 2))"
  by pat_completeness auto
termination
  by (relation "measure nat") auto

declare ulp.simps [simp del]

definition toNumber :: "int \<Rightarrow> jsnumber" where
  "toNumber n =
     (let u = ulp n; q = n div u; r = n mod u;
          q' = (if u < 2 * r \<or> (2 * r = u \<and> odd q) then q + 1 else q);
          v = q' * u
      in if 2 ^ 1024 \<le> v then Infinity else Num v)"

text \<open>
  \<^verbatim>\<open>Number.parseInt\<close> on a run of decimal digits: the number value of the integer
  that the run denotes. (ECMAScript lets an implementation read the digits after the 20th
  as zeros; the browser that runs the script rounds the exact value. The two agree on every
  run used below: runs of at most 20 digits, and the digit 1 or 2 followed by zeros.)
\<close>

definition parseInt :: "string \<Rightarrow> jsnumber" where
  "parseInt ds = toNumber (mathInt ds)"

text \<open>
  \<^verbatim>\<open>Number.parseInt(match ? match[0] : 0) || null\<close>: the number 0 is falsy, so it
  becomes \<^verbatim>\<open>null\<close>; every other number that can come out, \<^verbatim>\<open>Infinity\<close> too, is
  truthy and is returned.
\<close>

definition getReceiptCount :: "string \<Rightarrow> jsnumber option" where
  "getReceiptCount innerText =
     (let n = (case matchDigits innerText of Some m \<Rightarrow> parseInt m | None \<Rightarrow> Num 0)
      in if n = Num 0 then None else Some n)"

record ReceiptData =
  rid :: int
  count :: "jsnumber option"

text \<open>
  A mutation seen by \<^verbatim>\<open>_observeReceiptsMulti\<close>, reduced to what the method reads of its
  target element: whether its class list has \<^verbatim>\<open>mdRGT07Read\<close> and \<^verbatim>\<open>MdNonDisp\<close>, the
  \<^verbatim>\<open>data-local-id\<close> of the closest \<^verbatim>\<open>.mdRGT07Own\<close> ancestor (if there is one), and
  its text.
\<close>

record ReadMutation =
  isRead :: bool
  isNonDisp :: bool
  ownMsgID :: "int option"
  readText :: string

text \<open>
  The loop of \<^verbatim>\<open>_observeReceiptsMulti\<close>: \<open>ids\<close> is the set of IDs already seen in this
  batch, \<open>receipts\<close> the list built so far; the result is the list handed to
  \<^verbatim>\<open>__mautrixReceiveReceiptMulti\<close> (nothing is sent when it is empty).
\<close>

fun observeReceiptsMulti_loop ::
  "ReadMutation list \<Rightarrow> int set \<Rightarrow> ReceiptData list \<Rightarrow> ReceiptData list" where
  "observeReceiptsMulti_loop [] ids receipts = receipts"
| "observeReceiptsMulti_loop (change # mutations) ids receipts =
     (if isRead change \<and> \<not> isNonDisp change then
        (case ownMsgID change of
           None \<Rightarrow> observeReceiptsMulti_loop mutations ids receipts
         | Some i \<Rightarrow>
             if i \<notin> ids then
               observeReceiptsMulti_loop mutations (insert i ids)
                 (receipts @ [\<lparr>rid = i, count = getReceiptCount (readText change)\<rparr>])
             else observeReceiptsMulti_loop mutations ids receipts)
      else observeReceiptsMulti_loop mutations ids receipts)"

definition observeReceiptsMulti :: "ReadMutation list \<Rightarrow> ReceiptData list" where
  "observeReceiptsMulti mutations = observeReceiptsMulti_loop mutations {} []"

subsection \<open>Messages\<close>

record MemberInfo =
  invited :: bool
  joined :: bool
  left :: bool

text \<open>
  \<^verbatim>\<open>MessageData\<close>. The sender is kept by name, the image by its URL; a field that is
  \<^verbatim>\<open>null\<close>, \<^verbatim>\<open>undefined\<close> or not set is \<open>None\<close>.
\<close>

record MessageData =
  msg_id :: int
  timestamp :: "int option"
  is_outgoing :: bool
  sender :: "string option"
  html :: "string option"
  image :: "string option"
  member_info :: "MemberInfo option"
  receipt_count :: "jsnumber option"

text \<open>
  The \<^verbatim>\<open>receipt_count\<close> that \<^verbatim>\<open>_parseMessage\<close> computes, from the type of the chat,
  whether the message is outgoing, and the text of its visible read indicator (\<open>None\<close>
  when it has none).
\<close>

definition parseMessage_receipt_count ::
  "ChatTypeEnum \<Rightarrow> bool \<Rightarrow> string option \<Rightarrow> jsnumber option" where
  "parseMessage_receipt_count chatType outgoing receipt =
     (if chatType = DIRECT then
        (if outgoing then Some (case receipt of None \<Rightarrow> Num 0 | Some text \<Rightarrow> Num 1) else None)
      else if \<not> outgoing then None
      else (case receipt of None \<Rightarrow> None | Some text \<Rightarrow> getReceiptCount text))"

subsection \<open>The index of pending messages\<close>

text \<open>
  \<^verbatim>\<open>PendingMessage\<close>: the ID of a message element and the promise of its parse. The
  promise is a reference (a number that names the parse task).
\<close>

record PendingMessage =
  promise :: nat
  pm_id :: int

text \<open>
  \<^verbatim>\<open>SameIDMsgs\<close>: the pending messages of one ID. \<open>resolve\<close> is \<^verbatim>\<open>null\<close> or the
  resolver of the promise a resolved message waits on (a reference to the waiter).
\<close>

record SameIDMsgs =
  group_id :: int
  msgs :: "PendingMessage list"
  resolve :: "nat option"
  numRejected :: nat

text \<open>An array read: \<^verbatim>\<open>undefined\<close> (\<open>None\<close>) outside the array.\<close>

definition at_index :: "'a list \<Rightarrow> int \<Rightarrow> 'a option" where
  "at_index xs i = (if 0 \<le> i \<and> i < int (length xs) then Some (xs ! nat i) else None)"

text \<open>
  \<^verbatim>\<open>_findMsgsForID\<close>, with its two bounds as the source passes them on. Reading
  \<^verbatim>\<open>.id\<close> of an element outside the array throws.
\<close>

function findMsgsForID :: "SameIDMsgs list \<Rightarrow> int \<Rightarrow> bool \<Rightarrow> int \<Rightarrow> int \<Rightarrow> error + int" where
  "findMsgsForID sortedSameIDMsgs id' returnClosest lowerBound upperBound =
     (if lowerBound > upperBound then Inr (- 1)
      else if returnClosest \<and> lowerBound = upperBound then
        (case at_index sortedSameIDMsgs lowerBound of
           None \<Rightarrow> Inl TypeError
         | Some val \<Rightarrow> Inr (if group_id val \<le> id' then lowerBound else lowerBound - 1))
      else
        (let i = lowerBound + (upperBound - lowerBound) div 2 in
         case at_index sortedSameIDMsgs i of
           None \<Rightarrow> Inl TypeError
         | Some val \<Rightarrow>
             if group_id val = id' then Inr i
             else if group_id val < id' then
               findMsgsForID sortedSameIDMsgs id' returnClosest (i + 1) upperBound
             else
               findMsgsForID sortedSameIDMsgs id' returnClosest lowerBound (i - 1)))"
  by pat_completeness auto
termination
  by (relation "measure (\<lambda>(xs, i, c, lo, hi). nat (hi - lo + 1))") auto

text \<open>The call with the default bounds: \<^verbatim>\<open>0\<close> and \<^verbatim>\<open>sortedSameIDMsgs.length - 1\<close>.\<close>

definition findMsgsForID_default :: "SameIDMsgs list \<Rightarrow> int \<Rightarrow> bool \<Rightarrow> error + int" where
  "findMsgsForID_default sortedSameIDMsgs id' returnClosest =
     findMsgsForID sortedSameIDMsgs id' returnClosest 0 (int (length sortedSameIDMsgs) - 1)"

declare findMsgsForID.simps [simp del]

text \<open>The order the index is meant to have: strictly ascending by ID.\<close>

definition ascending :: "SameIDMsgs list \<Rightarrow> bool" where
  "ascending xs = sorted_wrt (<) (map group_id xs)"

text \<open>
  The \<^verbatim>\<open>SameIDMsgs\<close> objects are shared: the array holds them, and the handlers of
  every pending message keep the object \<^verbatim>\<open>_insertMsgByID\<close> returned, also after it has
  left the array. So the objects live in a store, a list in which the reference of an
  object is its position (a new object goes to the end), and the array
  \<^verbatim>\<open>sortedSameIDMsgs\<close> is a list of references.
\<close>

type_synonym store = "SameIDMsgs list"

text \<open>The object literal of \<^verbatim>\<open>_insertMsgByID\<close>.\<close>

definition newSameIDMsgs :: "PendingMessage \<Rightarrow> SameIDMsgs" where
  "newSameIDMsgs msg = \<lparr>group_id = pm_id msg, msgs = [msg], resolve = None, numRejected = 0\<rparr>"

text \<open>\<^verbatim>\<open>array.splice(j, 0, x)\<close> for \<open>j \<ge> 0\<close>: insertion at \<open>j\<close>, at the end when \<open>j\<close> is beyond it.\<close>

definition splice :: "nat \<Rightarrow> 'a \<Rightarrow> 'a list \<Rightarrow> 'a list" where
  "splice j x xs = take j xs @ [x] @ drop j xs"

text \<open>The array as the search reads it: the objects behind the references.\<close>

definition deref :: "store \<Rightarrow> nat list \<Rightarrow> SameIDMsgs list" where
  "deref objs arr = map (\<lambda>a. objs ! a) arr"

text \<open>
  \<^verbatim>\<open>_insertMsgByID\<close>: the store and the array before; after, the same two and the
  reference of the object the method returns. The search returns an index from \<open>-1\<close>
  to \<open>length - 1\<close> (lemma \<open>findMsgsForID_default_bounds\<close>), so the index of the splice
  is within \<open>0 .. length\<close> and the object returned after a splice is the new one.
\<close>

definition insertMsgByID ::
  "store \<Rightarrow> nat list \<Rightarrow> PendingMessage \<Rightarrow> error + (store \<times> nat list \<times> nat)" where
  "insertMsgByID objs sortedSameIDMsgs msg =
     (case findMsgsForID_default (deref objs sortedSameIDMsgs) (pm_id msg) True of
        Inl e \<Rightarrow> Inl e
      | Inr i \<Rightarrow>
          (let create = Inr (objs @ [newSameIDMsgs msg],
                             splice (nat (i + 1)) (length objs) sortedSameIDMsgs, length objs)
           in if i \<noteq> - 1 then
                (case at_index sortedSameIDMsgs i of
                   None \<Rightarrow> Inl TypeError
                 | Some a \<Rightarrow>
                     if group_id (objs ! a) = pm_id msg
                     then Inr (objs[a := (objs ! a)\<lparr>msgs := msgs (objs ! a) @ [msg]\<rparr>],
                               sortedSameIDMsgs, a)
                     else create)
              else create))"

subsection \<open>The message list observer\<close>

text \<open>
  A node added to the message list that is a \<^verbatim>\<open>DIV\<close> with a \<^verbatim>\<open>data-local-id\<close> and the
  class \<^verbatim>\<open>MdRGT07Cont\<close>: the node itself (a reference), its ID, and whether
  \<^verbatim>\<open>_observeOwnMessage\<close> takes it for the bridge's own pending message.
\<close>

record AddedNode =
  element :: nat
  local_id :: int
  own :: bool

text \<open>
  The state that the closures of \<^verbatim>\<open>addMsgListObserver\<close> share, and what is suspended
  around it:
  \<^item> \<open>minID\<close>, \<open>sortedSameIDMsgs\<close> (with the store of its objects) and
    \<open>pendingMsgElements\<close>, as in the source;
  \<^item> \<open>tasks\<close>: the parse promises not yet settled, by element, each with the
    \<^verbatim>\<open>sameIDMsgs\<close> object its two handlers closed over;
  \<^item> \<open>ownMsgs\<close>: the elements whose handlers wait on \<^verbatim>\<open>ownMsgPromise\<close>;
  \<^item> \<open>waiters\<close>: the resolved messages suspended at
    \<^verbatim>\<open>await new Promise(resolve => sameIDMsgs.resolve = resolve)\<close>, by the reference
    stored in \<open>resolve\<close> (\<open>fresh_waiter\<close> is the next one); \<open>woken\<close>: those whose
    resolver has been called and that have not resumed yet;
  \<^item> \<open>sending\<close>: the calls of \<^verbatim>\<open>handleMessage\<close> suspended at
    \<^verbatim>\<open>await window.__mautrixReceiveMessages(...)\<close>;
  \<^item> \<open>delivered\<close>: the messages passed to \<^verbatim>\<open>__mautrixReceiveMessages\<close> so far, in
    the order of the calls.
\<close>

record MsgListObserver =
  minID :: int
  objects :: store
  sortedSameIDMsgs :: "nat list"
  pendingMsgElements :: "nat set"
  tasks :: "(nat \<times> nat) list"
  ownMsgs :: "nat set"
  waiters :: "(nat \<times> MessageData \<times> nat) list"
  fresh_waiter :: nat
  woken :: "(MessageData \<times> nat) list"
  sending :: nat
  delivered :: "MessageData list"

text \<open>\<^verbatim>\<open>addMsgListObserver(minID)\<close>: nothing tracked yet.\<close>

definition addMsgListObserver :: "int \<Rightarrow> MsgListObserver" where
  "addMsgListObserver m =
     \<lparr>minID = m, objects = [], sortedSameIDMsgs = [], pendingMsgElements = {}, tasks = [],
      ownMsgs = {}, waiters = [], fresh_waiter = 0, woken = [], sending = 0,
      delivered = []\<rparr>"

text \<open>Removing a key from an association list.\<close>

definition without :: "'k \<Rightarrow> ('k \<times> 'v) list \<Rightarrow> ('k \<times> 'v) list" where
  "without k kvs = filter (\<lambda>kv. fst kv \<noteq> k) kvs"

text \<open>
  \<^verbatim>\<open>handleMessage\<close> up to its \<^verbatim>\<open>await\<close>: the watermark is set, the head of the array
  is shifted out (nothing happens on an empty array) and the message is passed on.
\<close>

definition handleMessage :: "MessageData \<Rightarrow> MsgListObserver \<Rightarrow> MsgListObserver" where
  "handleMessage messageData s =
     s\<lparr>minID := msg_id messageData,
       sortedSameIDMsgs := drop 1 (sortedSameIDMsgs s),
       delivered := delivered s @ [messageData],
       sending := sending s + 1\<rparr>"

text \<open>
  The first loop of the observer's callback over the added nodes: new elements above the
  watermark become pending; those that are not the bridge's own are the remote messages.
\<close>

fun collectRemoteMsgs ::
  "AddedNode list \<Rightarrow> AddedNode list \<Rightarrow> MsgListObserver \<Rightarrow> AddedNode list \<times> MsgListObserver" where
  "collectRemoteMsgs [] remoteMsgs s = (remoteMsgs, s)"
| "collectRemoteMsgs (child # rest) remoteMsgs s =
     (if element child \<notin> pendingMsgElements s \<and> local_id child > minID s then
        (let s' = s\<lparr>pendingMsgElements := insert (element child) (pendingMsgElements s)\<rparr>
         in if own child
            then collectRemoteMsgs rest remoteMsgs (s'\<lparr>ownMsgs := insert (element child) (ownMsgs s')\<rparr>)
            else collectRemoteMsgs rest (remoteMsgs @ [child]) s')
      else collectRemoteMsgs rest remoteMsgs s)"

text \<open>
  The second loop: every remote message gets its parse promise, is inserted into the
  index, and its handlers close over the object returned.
\<close>

fun trackRemoteMsgs :: "AddedNode list \<Rightarrow> MsgListObserver \<Rightarrow> error + MsgListObserver" where
  "trackRemoteMsgs [] s = Inr s"
| "trackRemoteMsgs (msg # rest) s =
     (case insertMsgByID (objects s) (sortedSameIDMsgs s)
             \<lparr>promise = element msg, pm_id = local_id msg\<rparr> of
        Inl e \<Rightarrow> Inl e
      | Inr (objs, arr, sameIDMsgs) \<Rightarrow>
          trackRemoteMsgs rest
            (s\<lparr>objects := objs, sortedSameIDMsgs := arr,
               tasks := (element msg, sameIDMsgs) # without (element msg) (tasks s)\<rparr>))"

text \<open>
  What the event loop can run next:
  \<^item> \<open>Added\<close>: the observer's callback, with the nodes added to the list;
  \<^item> \<open>Resolved\<close>, \<open>Rejected\<close>: the parse promise of an element settles, with the
    message data it resolves with or throws;
  \<^item> \<open>Sent\<close>, \<open>SendFailed\<close>: a call of \<^verbatim>\<open>__mautrixReceiveMessages\<close> settles;
  \<^item> \<open>Resumed\<close>: the first woken message goes on after its \<^verbatim>\<open>await\<close>;
  \<^item> \<open>OwnResolved\<close>, \<open>OwnRejected\<close>: \<^verbatim>\<open>ownMsgPromise\<close> settles for an own element.
\<close>

datatype event =
    Added "AddedNode list"
  | Resolved nat MessageData
  | Rejected nat MessageData
  | Sent
  | SendFailed
  | Resumed
  | OwnResolved nat int
  | OwnRejected nat

text \<open>
  One callback. An event that cannot happen in the state (a promise that is not pending,
  nothing sent, nothing woken) changes nothing.
\<close>

fun step :: "MsgListObserver \<Rightarrow> event \<Rightarrow> error + MsgListObserver" where
  "step s (Added nodes) =
     (case collectRemoteMsgs nodes [] s of (remoteMsgs, s') \<Rightarrow> trackRemoteMsgs remoteMsgs s')"
| "step s (Resolved messageElement messageData) =
     (case map_of (tasks s) messageElement of
        None \<Rightarrow> Inr s
      | Some sameIDMsgs \<Rightarrow>
          (let s1 = s\<lparr>tasks := without messageElement (tasks s)\<rparr> in
           case findMsgsForID_default (deref (objects s1) (sortedSameIDMsgs s1))
                  (msg_id messageData) False of
             Inl e \<Rightarrow> Inl e
           | Inr i \<Rightarrow>
               if i = - 1 then
                 Inr (s1\<lparr>pendingMsgElements := pendingMsgElements s1 - {messageElement}\<rparr>)
               else if i \<noteq> 0 then
                 Inr (s1\<lparr>objects := (objects s1)
                             [sameIDMsgs := (objects s1 ! sameIDMsgs)\<lparr>resolve := Some (fresh_waiter s1)\<rparr>],
                         waiters := (fresh_waiter s1, messageData, messageElement) # waiters s1,
                         fresh_waiter := fresh_waiter s1 + 1\<rparr>)
               else
                 Inr (handleMessage messageData
                        (s1\<lparr>pendingMsgElements := pendingMsgElements s1 - {messageElement}\<rparr>))))"
| "step s (Rejected messageElement messageData) =
     (case map_of (tasks s) messageElement of
        None \<Rightarrow> Inr s
      | Some sameIDMsgs \<Rightarrow>
          (let g = objects s ! sameIDMsgs;
               s1 = s\<lparr>tasks := without messageElement (tasks s),
                      pendingMsgElements := pendingMsgElements s - {messageElement},
                      objects := (objects s)[sameIDMsgs := g\<lparr>numRejected := numRejected g + 1\<rparr>]\<rparr>
           in if numRejected g + 1 = length (msgs g)
              then Inr (handleMessage messageData s1)
              else Inr s1))"
| "step s Sent =
     (if sending s = 0 then Inr s
      else
        (let s1 = s\<lparr>sending := sending s - 1\<rparr> in
         case sortedSameIDMsgs s1 of
           [] \<Rightarrow> Inr s1
         | first # _ \<Rightarrow>
             (case resolve (objects s1 ! first) of
                None \<Rightarrow> Inr s1
              | Some w \<Rightarrow>
                  (case map_of (waiters s1) w of
                     None \<Rightarrow> Inr s1
                   | Some k \<Rightarrow> Inr (s1\<lparr>waiters := without w (waiters s1),
                                         woken := woken s1 @ [k]\<rparr>)))))"
| "step s SendFailed = Inr (s\<lparr>sending := sending s - 1\<rparr>)"
| "step s Resumed =
     (case woken s of
        [] \<Rightarrow> Inr s
      | (messageData, messageElement) # rest \<Rightarrow>
          Inr (handleMessage messageData
                 (s\<lparr>woken := rest,
                    pendingMsgElements := pendingMsgElements s - {messageElement}\<rparr>)))"
| "step s (OwnResolved ownMsg msgID) =
     (if ownMsg \<in> ownMsgs s then
        (let s1 = s\<lparr>ownMsgs := ownMsgs s - {ownMsg},
                      pendingMsgElements := pendingMsgElements s - {ownMsg}\<rparr>
         in Inr (if minID s1 < msgID then s1\<lparr>minID := msgID\<rparr> else s1))
      else Inr s)"
| "step s (OwnRejected ownMsg) =
     (if ownMsg \<in> ownMsgs s then
        Inr (s\<lparr>ownMsgs := ownMsgs s - {ownMsg},
               pendingMsgElements := pendingMsgElements s - {ownMsg}\<rparr>)
      else Inr s)"

text \<open>A run of the event loop; it stops at an exception.\<close>

fun run :: "MsgListObserver \<Rightarrow> event list \<Rightarrow> error + MsgListObserver" where
  "run s [] = Inr s"
| "run s (e # es) = (case step s e of Inl err \<Rightarrow> Inl err | Inr s' \<Rightarrow> run s' es)"

subsection \<open>Receipts of the whole list\<close>

text \<open>
  A visible read indicator (\<^verbatim>\<open>.mdRGT07Read:not(.MdNonDisp)\<close>) of the message list, as
  \<^verbatim>\<open>parseReceiptList\<close> reads it: the \<^verbatim>\<open>data-local-id\<close> of its closest ancestor that
  has one (\<open>None\<close> when \<^verbatim>\<open>closest\<close> finds none), and its text.
\<close>

record ReadElement =
  closestID :: "int option"
  innerText :: string

text \<open>
  \<^verbatim>\<open>rctIDs[`${k}`] || 0\<close>: the object \<^verbatim>\<open>rctIDs\<close> is a map from counts to IDs, and a
  missing tier counts as 0. A key of the object is the text of a number, and different
  numbers have different texts, so the map is from the numbers themselves.
\<close>

definition watermark :: "(jsnumber \<rightharpoonup> int) \<Rightarrow> jsnumber \<Rightarrow> int" where
  "watermark rctIDs k = (case rctIDs k of None \<Rightarrow> 0 | Some v \<Rightarrow> v)"

text \<open>
  The \<^verbatim>\<open>map\<close> over the indicators; \<^verbatim>\<open>idGetter\<close> throws on an indicator outside every
  element with a \<^verbatim>\<open>data-local-id\<close>.
\<close>

fun readReceipts :: "bool \<Rightarrow> ReadElement list \<Rightarrow> error + ReceiptData list" where
  "readReceipts isDirect [] = Inr []"
| "readReceipts isDirect (e # es) =
     (case closestID e of
        None \<Rightarrow> Inl TypeError
      | Some i \<Rightarrow>
          (case readReceipts isDirect es of
             Inl err \<Rightarrow> Inl err
           | Inr receipts \<Rightarrow>
               Inr (\<lparr>rid = i, count = (if isDirect then Some (Num 1)
                                       else getReceiptCount (innerText e))\<rparr>
                    # receipts)))"

text \<open>\<^verbatim>\<open>count >= m\<close> and \<^verbatim>\<open>count < n\<close> for a count that is a number.\<close>

definition atLeastCount :: "jsnumber \<Rightarrow> int \<Rightarrow> bool" where
  "atLeastCount c m = (case c of Num k \<Rightarrow> m \<le> k | Infinity \<Rightarrow> True)"

definition belowCount :: "jsnumber \<Rightarrow> int \<Rightarrow> bool" where
  "belowCount c n = (case c of Num k \<Rightarrow> k < n | Infinity \<Rightarrow> False)"

text \<open>
  The loop of \<^verbatim>\<open>parseReceiptList\<close>, from the last receipt backwards: the list argument
  holds the receipts still to visit, the next one first, and the result is
  \<^verbatim>\<open>newReceipts\<close> in the order of the pushes. A \<^verbatim>\<open>null\<close> count is not
  \<^verbatim>\<open>>= minCountToFind\<close>. \<^verbatim>\<open>minCountToFind = receipt.count + 1\<close> is reached only
  with a count below \<^verbatim>\<open>numOthers\<close>, an integer far below \<open>2^53\<close> (the number of children
  of an element is a 32-bit number), so the sum is exact.
\<close>

fun scanReceipts ::
  "(jsnumber \<rightharpoonup> int) \<Rightarrow> int \<Rightarrow> int \<Rightarrow> int \<Rightarrow> ReceiptData list \<Rightarrow> ReceiptData list" where
  "scanReceipts rctIDs numOthers prevFullyReadID minCountToFind [] = []"
| "scanReceipts rctIDs numOthers prevFullyReadID minCountToFind (receipt # earlier) =
     (case count receipt of
        None \<Rightarrow>
          if rid receipt \<le> prevFullyReadID then []
          else scanReceipts rctIDs numOthers prevFullyReadID minCountToFind earlier
      | Some c \<Rightarrow>
          if atLeastCount c minCountToFind \<and> watermark rctIDs c < rid receipt then
            receipt #
              (if belowCount c numOthers
               then scanReceipts rctIDs numOthers prevFullyReadID
                      (case c of Num k \<Rightarrow> k + 1 | Infinity \<Rightarrow> minCountToFind) earlier
               else [])
          else if rid receipt \<le> prevFullyReadID then []
          else scanReceipts rctIDs numOthers prevFullyReadID minCountToFind earlier)"

text \<open>
  \<^verbatim>\<open>parseReceiptList(rctIDs)\<close>, given what it reads of the page: the ID of the current
  chat (\<open>None\<close> when none is selected), the number of children of the participants list
  (\<open>None\<close> when the list is not there) and the visible read indicators in document order.
\<close>

definition parseReceiptList ::
  "(jsnumber \<rightharpoonup> int) \<Rightarrow> string option \<Rightarrow> nat option \<Rightarrow> ReadElement list \<Rightarrow> error + ReceiptData list" where
  "parseReceiptList rctIDs currentChatID childElementCount readElements =
     (case getCurrentChatType currentChatID of
        Inl e \<Rightarrow> Inl e
      | Inr chatType \<Rightarrow>
          (let isDirect = (chatType = DIRECT) in
           case (if isDirect then Some 1 else map_option (\<lambda>n. int n - 1) childElementCount) of
             None \<Rightarrow> Inl TypeError
           | Some numOthers \<Rightarrow>
               (case readReceipts isDirect readElements of
                  Inl e \<Rightarrow> Inl e
                | Inr receipts \<Rightarrow>
                    Inr (scanReceipts rctIDs numOthers (watermark rctIDs (Num numOthers)) 1
                           (rev receipts)))))"

subsection \<open>Messages of the whole list\<close>

text \<open>How a promise has settled, as \<^verbatim>\<open>Promise.allSettled\<close> reports it.\<close>

datatype 'a settled = Fulfilled 'a | Failed

text \<open>
  A child of the message list with a \<^verbatim>\<open>data-local-id\<close>, by the first branch of the loop
  of \<^verbatim>\<open>parseMessageList\<close> that its class list selects:
  \<^item> \<open>DateChild\<close>: a date separator (\<^verbatim>\<open>mdRGT10Date\<close>);
  \<^item> \<open>ContChild\<close>: a message (\<^verbatim>\<open>MdRGT07Cont\<close>), with how the promise of its
    \<^verbatim>\<open>_parseMessage\<close> settles;
  \<^item> \<open>NoticeChild\<close>: a notice (\<^verbatim>\<open>MdRGT10Notice\<close>), with the result of
    \<^verbatim>\<open>_tryParseMemberEvent\<close> on it and, for the scan backwards from it, the parsed time
    of the nearest earlier element that has an ID and a \<^verbatim>\<open>time\<close> element (\<open>None\<close> when
    the scan finds no such element);
  \<^item> \<open>OtherChild\<close>: anything else.
\<close>

datatype child_kind =
    DateChild
  | ContChild "MessageData settled"
  | NoticeChild "MessageData option" "int option option"
  | OtherChild

record ListChild =
  child_id :: int
  kind :: child_kind

text \<open>
  The loop over \<^verbatim>\<open>msgList\<close>: \<open>refDateSet\<close> says whether \<^verbatim>\<open>refDate\<close> is no longer
  \<^verbatim>\<open>undefined\<close>, \<open>messagePromises\<close> is the list built so far (each promise with the way
  it settles). The first member event found with an earlier timed element and no
  \<^verbatim>\<open>refDate\<close> yet calls \<^verbatim>\<open>this._tryFindNearestRefDate\<close>, which the class does not
  define: a TypeError.
\<close>

fun collectMessagePromises ::
  "ListChild list \<Rightarrow> bool \<Rightarrow> MessageData settled list \<Rightarrow> error + MessageData settled list" where
  "collectMessagePromises [] refDateSet messagePromises = Inr messagePromises"
| "collectMessagePromises (child # rest) refDateSet messagePromises =
     (case kind child of
        DateChild \<Rightarrow> collectMessagePromises rest True messagePromises
      | ContChild outcome \<Rightarrow> collectMessagePromises rest True (messagePromises @ [outcome])
      | NoticeChild None found \<Rightarrow> collectMessagePromises rest refDateSet messagePromises
      | NoticeChild (Some memberEventMessage) found \<Rightarrow>
          if messagePromises = [] then
            (case found of
               None \<Rightarrow>
                 collectMessagePromises rest refDateSet
                   (messagePromises @ [Fulfilled memberEventMessage])
             | Some t \<Rightarrow>
                 if \<not> refDateSet then Inl TypeError
                 else collectMessagePromises rest refDateSet
                        (messagePromises @ [Fulfilled (memberEventMessage\<lparr>timestamp := t\<rparr>)]))
          else collectMessagePromises rest refDateSet
                 (messagePromises @ [Fulfilled memberEventMessage])
      | OtherChild \<Rightarrow> collectMessagePromises rest refDateSet messagePromises)"

text \<open>The values of the fulfilled promises, in order.\<close>

fun fulfilledValues :: "'a settled list \<Rightarrow> 'a list" where
  "fulfilledValues [] = []"
| "fulfilledValues (Fulfilled v # rest) = v # fulfilledValues rest"
| "fulfilledValues (Failed # rest) = fulfilledValues rest"

text \<open>
  The last loop of \<^verbatim>\<open>parseMessageList\<close>,
  \<^verbatim>\<open>for (let i = 1, n = messages.length; i < n; i++)\<close>, from the index \<open>i\<close> on.
\<close>

function setMemberTimestamps :: "nat \<Rightarrow> nat \<Rightarrow> MessageData list \<Rightarrow> MessageData list" where
  "setMemberTimestamps i n messages =
     (if i < n then
        setMemberTimestamps (i + 1) n
          (if member_info (messages ! i) \<noteq> None
           then messages[i := (messages ! i)\<lparr>timestamp := timestamp (messages ! (i - 1))\<rparr>]
           else messages)
      else messages)"
  by pat_completeness auto
termination
  by (relation "measure (\<lambda>(i, n, messages). n - i)") auto

declare setMemberTimestamps.simps [simp del]

text \<open>
  \<^verbatim>\<open>parseMessageList(minID)\<close>, given the ID of the current chat and the children of the
  message list that have a \<^verbatim>\<open>data-local-id\<close>. The result is the value its promise
  fulfils with, after every message promise has settled.
\<close>

definition parseMessageList ::
  "int \<Rightarrow> string option \<Rightarrow> ListChild list \<Rightarrow> error + MessageData list" where
  "parseMessageList minID' currentChatID children =
     (let msgList = filter (\<lambda>msg. child_id msg > minID') children in
      if msgList = [] then Inr []
      else
        (case getCurrentChatType currentChatID of
           Inl e \<Rightarrow> Inl e
         | Inr chatType \<Rightarrow>
             (case collectMessagePromises msgList False [] of
                Inl e \<Rightarrow> Inl e
              | Inr messagePromises \<Rightarrow>
                  (let messages = fulfilledValues messagePromises
                   in Inr (setMemberTimestamps 1 (length messages) messages)))))"

subsection \<open>The bridge's own messages\<close>

text \<open>
  A promise is pending or settled; \<^verbatim>\<open>ownMsgPromise\<close> resolves with a message ID and
  rejects with the failure indicator (a node) or with \<^verbatim>\<open>null\<close>.
\<close>

datatype promise_state = Pending | ResolvedWith int | RejectedWith "nat option"

text \<open>
  An element found by \<^verbatim>\<open>querySelector\<close>: the node (a reference) and whether its class
  list has \<^verbatim>\<open>MdNonDisp\<close>.
\<close>

record Indicator =
  ind_node :: nat
  hidden :: bool

text \<open>What \<^verbatim>\<open>_observeOwnMessage\<close> reads of a message element.\<close>

record OwnMsgElement =
  querySelector :: "string \<Rightarrow> Indicator option"
  data_local_id :: int

text \<open>
  A \<^verbatim>\<open>MutationObserver\<close> made by \<^verbatim>\<open>_observeOwnMessage\<close>: the argument its callback
  was made with (\<^verbatim>\<open>_getOwnVisibleCallback(msgID)\<close>, \<open>None\<close> for no argument), the node
  it observes, and whether it is still connected.
\<close>

record VisibleObserver =
  callback_msgID :: "int option"
  observed :: nat
  connected :: bool

text \<open>What the controller does to the world outside its fields, in order.\<close>

datatype effect =
    ClearTimeout "nat option"
  | Disconnect nat
  | CallResolve nat int
  | CallReject nat "nat option"

text \<open>
  The fields of the controller that deal with its own message, as in the source, and
  what they refer to: the promises made so far (a reference is a position in the list),
  the timers set (each with its delay and whether it is still due), the observers made,
  and the log of the effects.
\<close>

record OwnMsgController =
  promiseOwnMsgSuccessSelector :: "string option"
  promiseOwnMsgFailureSelector :: "string option"
  promiseOwnMsgResolve :: "nat option"
  promiseOwnMsgReject :: "nat option"
  promiseOwnMsgTimeoutID :: "nat option"
  visibleSuccessObserver :: "nat option"
  visibleFailureObserver :: "nat option"
  ownMsgPromise :: nat
  promises :: "promise_state list"
  timers :: "(nat \<times> bool) list"
  observers :: "VisibleObserver list"
  effects :: "effect list"

text \<open>A selector is truthy when it is neither \<^verbatim>\<open>null\<close> nor the empty string.\<close>

definition truthy :: "string option \<Rightarrow> bool" where
  "truthy sel = (sel \<noteq> None \<and> sel \<noteq> Some [])"

text \<open>Calling the resolver or the rejecter of a promise: a settled promise stays as it is.\<close>

definition settle :: "nat \<Rightarrow> promise_state \<Rightarrow> OwnMsgController \<Rightarrow> OwnMsgController" where
  "settle p outcome c =
     c\<lparr>promises := (if p < length (promises c) \<and> promises c ! p = Pending
                      then (promises c)[p := outcome] else promises c)\<rparr>"

definition disconnect :: "nat option \<Rightarrow> OwnMsgController \<Rightarrow> OwnMsgController" where
  "disconnect obs c =
     (case obs of
        None \<Rightarrow> c
      | Some k \<Rightarrow>
          c\<lparr>observers := (if k < length (observers c)
                            then (observers c)[k := (observers c ! k)\<lparr>connected := False\<rparr>]
                            else observers c),
            effects := effects c @ [Disconnect k]\<rparr>)"

definition clearTimeout :: "nat option \<Rightarrow> OwnMsgController \<Rightarrow> OwnMsgController" where
  "clearTimeout tid c =
     c\<lparr>timers := (case tid of
                     None \<Rightarrow> timers c
                   | Some k \<Rightarrow> if k < length (timers c)
                               then (timers c)[k := (fst (timers c ! k), False)]
                               else timers c),
       effects := effects c @ [ClearTimeout tid]\<rparr>"

definition promiseOwnMsgReset :: "OwnMsgController \<Rightarrow> OwnMsgController" where
  "promiseOwnMsgReset c =
     (let c1 = c\<lparr>promiseOwnMsgSuccessSelector := None,
                   promiseOwnMsgFailureSelector := None,
                   promiseOwnMsgResolve := None,
                   promiseOwnMsgReject := None,
                   promiseOwnMsgTimeoutID := None\<rparr>;
          c2 = (disconnect (visibleSuccessObserver c1) c1)\<lparr>visibleSuccessObserver := None\<rparr>
      in (disconnect (visibleFailureObserver c2) c2)\<lparr>visibleFailureObserver := None\<rparr>)"

text \<open>
  Calling the stored resolver or rejecter: the call is logged and settles the promise.
\<close>

definition callResolve :: "nat \<Rightarrow> int \<Rightarrow> OwnMsgController \<Rightarrow> OwnMsgController" where
  "callResolve p msgID c =
     settle p (ResolvedWith msgID) (c\<lparr>effects := effects c @ [CallResolve p msgID]\<rparr>)"

definition callReject :: "nat \<Rightarrow> nat option \<Rightarrow> OwnMsgController \<Rightarrow> OwnMsgController" where
  "callReject p failureElement c =
     settle p (RejectedWith failureElement)
       (c\<lparr>effects := effects c @ [CallReject p failureElement]\<rparr>)"

definition resolveOwnMessage :: "int \<Rightarrow> OwnMsgController \<Rightarrow> OwnMsgController" where
  "resolveOwnMessage msgID c =
     (case promiseOwnMsgResolve c of
        None \<Rightarrow> c
      | Some resolve' \<Rightarrow>
          callResolve resolve' msgID
            (promiseOwnMsgReset (clearTimeout (promiseOwnMsgTimeoutID c) c)))"

definition rejectOwnMessage :: "nat option \<Rightarrow> OwnMsgController \<Rightarrow> OwnMsgController" where
  "rejectOwnMessage failureElement c =
     (case promiseOwnMsgReject c of
        None \<Rightarrow> c
      | Some reject' \<Rightarrow> callReject reject' failureElement (promiseOwnMsgReset c))"

text \<open>
  \<^verbatim>\<open>promiseOwnMessage(timeoutLimitMillis, successSelector, failureSelector)\<close>: a new
  promise and a new timer.
\<close>

definition promiseOwnMessage ::
  "nat \<Rightarrow> string \<Rightarrow> string option \<Rightarrow> OwnMsgController \<Rightarrow> OwnMsgController" where
  "promiseOwnMessage timeoutLimitMillis successSelector failureSelector c =
     c\<lparr>promiseOwnMsgSuccessSelector := Some successSelector,
       promiseOwnMsgFailureSelector := failureSelector,
       ownMsgPromise := length (promises c),
       promises := promises c @ [Pending],
       promiseOwnMsgResolve := Some (length (promises c)),
       promiseOwnMsgReject := Some (length (promises c)),
       promiseOwnMsgTimeoutID := Some (length (timers c)),
       timers := timers c @ [(timeoutLimitMillis, True)]\<rparr>"

text \<open>
  The callback of the timer \<open>tid\<close> of \<^verbatim>\<open>promiseOwnMessage\<close>, run when the timer is due
  and has not been cleared.
\<close>

definition timeoutFires :: "nat \<Rightarrow> OwnMsgController \<Rightarrow> OwnMsgController" where
  "timeoutFires tid c =
     (if tid < length (timers c) \<and> snd (timers c ! tid) then
        (let c1 = c\<lparr>timers := (timers c)[tid := (fst (timers c ! tid), False)]\<rparr>
         in if promiseOwnMsgReject c1 \<noteq> None then rejectOwnMessage None c1 else c1)
      else c)"

definition isWaitingForOwnMessage :: "OwnMsgController \<Rightarrow> bool" where
  "isWaitingForOwnMessage c = (promiseOwnMsgResolve c \<noteq> None)"

text \<open>\<^verbatim>\<open>new MutationObserver(callback).observe(node, ...)\<close>: the reference of the new observer.\<close>

definition newObserver :: "int option \<Rightarrow> nat \<Rightarrow> OwnMsgController \<Rightarrow> OwnMsgController" where
  "newObserver msgID node c =
     c\<lparr>observers := observers c @ [\<lparr>callback_msgID = msgID, observed = node, connected = True\<rparr>]\<rparr>"

text \<open>
  \<^verbatim>\<open>_observeOwnMessage(ownMsg)\<close>: the second component says whether the element was
  taken for the pending own message (the method returns it) or not (\<^verbatim>\<open>null\<close>).
\<close>

definition observeOwnMessage :: "OwnMsgElement \<Rightarrow> OwnMsgController \<Rightarrow> OwnMsgController \<times> bool" where
  "observeOwnMessage ownMsg c =
     (if \<not> isWaitingForOwnMessage c then (c, False)
      else
        (case (case promiseOwnMsgSuccessSelector c of
                 None \<Rightarrow> None
               | Some sel \<Rightarrow> querySelector ownMsg sel) of
           None \<Rightarrow> (c, False)
         | Some successElement \<Rightarrow>
             if \<not> hidden successElement then (c, False)
             else
               (let failureElement =
                      (case promiseOwnMsgFailureSelector c of
                         None \<Rightarrow> None
                       | Some sel \<Rightarrow> if sel = [] then None else querySelector ownMsg sel);
                    msgID = data_local_id ownMsg;
                    c1 = (newObserver (Some msgID) (ind_node successElement) c)
                           \<lparr>visibleSuccessObserver := Some (length (observers c))\<rparr>
                in case failureElement of
                     Some fe \<Rightarrow>
                       if \<not> hidden fe then (c, False)
                       else ((newObserver None (ind_node fe) c1)
                               \<lparr>visibleFailureObserver := Some (length (observers c1))\<rparr>, True)
                   | None \<Rightarrow>
                       if truthy (promiseOwnMsgFailureSelector c) then (c, False)
                       else (c1, True))))"

text \<open>
  The callback made by \<^verbatim>\<open>_getOwnVisibleCallback(msgID)\<close>, run on a list of changes
  (each the target as it is then). \<^verbatim>\<open>isSuccess = !!msgID\<close>: no argument and the ID 0
  both make the callback of a failure.
\<close>

fun ownVisibleCallback :: "int option \<Rightarrow> Indicator list \<Rightarrow> OwnMsgController \<Rightarrow> OwnMsgController" where
  "ownVisibleCallback msgID [] c = c"
| "ownVisibleCallback msgID (change # changes) c =
     (if \<not> hidden change then
        (case msgID of
           None \<Rightarrow> rejectOwnMessage (Some (ind_node change)) c
         | Some m \<Rightarrow>
             if m \<noteq> 0 then resolveOwnMessage m c
             else rejectOwnMessage (Some (ind_node change)) c)
      else ownVisibleCallback msgID changes c)"

text \<open>
  The observer \<open>k\<close> delivers mutations of the node it observes: its callback runs if it
  is connected.
\<close>

definition observerFires :: "nat \<Rightarrow> bool list \<Rightarrow> OwnMsgController \<Rightarrow> OwnMsgController" where
  "observerFires k hiddens c =
     (if k < length (observers c) \<and> connected (observers c ! k) then
        ownVisibleCallback (callback_msgID (observers c ! k))
          (map (\<lambda>h. \<lparr>ind_node = observed (observers c ! k), hidden = h\<rparr>) hiddens) c
      else c)"

text \<open>No own message is awaited and nothing is observed for one.\<close>

definition idle :: "OwnMsgController \<Rightarrow> bool" where
  "idle c =
     (promiseOwnMsgSuccessSelector c = None \<and> promiseOwnMsgFailureSelector c = None
      \<and> promiseOwnMsgResolve c = None \<and> promiseOwnMsgReject c = None
      \<and> promiseOwnMsgTimeoutID c = None
      \<and> visibleSuccessObserver c = None \<and> visibleFailureObserver c = None)"

text \<open>
  The state in which nothing is left of a pending own message: the controller is idle and
  the observers listed are disconnected.
\<close>

definition cleanedUp :: "nat list \<Rightarrow> OwnMsgController \<Rightarrow> bool" where
  "cleanedUp obs c =
     (idle c \<and> list_all (\<lambda>k. k < length (observers c) \<and> \<not> connected (observers c ! k)) obs)"

subsection \<open>Predicates of the statements\<close>

text \<open>
  A receipt is newer than the watermark of its own tier; a receipt with no count belongs
  to no tier.
\<close>

definition newerThanTier :: "(jsnumber \<rightharpoonup> int) \<Rightarrow> ReceiptData \<Rightarrow> bool" where
  "newerThanTier rctIDs r =
     (case count r of None \<Rightarrow> False | Some c \<Rightarrow> watermark rctIDs c < rid r)"

text \<open>
  The first test of the loop of \<^verbatim>\<open>parseReceiptList\<close> fails for the receipt when the
  minimum count still sought is \<open>m\<close>: the receipt is not reported.
\<close>

definition notReported :: "(jsnumber \<rightharpoonup> int) \<Rightarrow> int \<Rightarrow> ReceiptData \<Rightarrow> bool" where
  "notReported rctIDs m r =
     (case count r of
        None \<Rightarrow> True
      | Some c \<Rightarrow> \<not> atLeastCount c m \<or> rid r \<le> watermark rctIDs c)"

text \<open>
  The message at \<open>j\<close> of the list returned is the value its promise fulfilled with, its
  timestamp replaced by that of the message returned before it when it is a member
  event and not the first.
\<close>

definition backfilled :: "MessageData list \<Rightarrow> MessageData list \<Rightarrow> nat \<Rightarrow> bool" where
  "backfilled values messages j =
     (messages ! j =
        (if 0 < j \<and> member_info (values ! j) \<noteq> None
         then (values ! j)\<lparr>timestamp := timestamp (messages ! (j - 1))\<rparr>
         else values ! j))"

text \<open>
  The controller waits for its own message on a matched element: the promise \<open>p\<close> is
  pending with its resolver and rejecter stored, the timer \<open>tid\<close> of delay \<open>t\<close> is due,
  the success observer \<open>so\<close> is connected with the callback for the ID \<open>m\<close>, and the
  observers \<open>obs\<close> are the ones the controller refers to.
\<close>

definition watches ::
  "OwnMsgController \<Rightarrow> nat \<Rightarrow> nat \<Rightarrow> nat \<Rightarrow> nat \<Rightarrow> int \<Rightarrow> nat list \<Rightarrow> bool" where
  "watches w p tid t so m obs =
     (promiseOwnMsgResolve w = Some p \<and> promiseOwnMsgReject w = Some p
      \<and> promiseOwnMsgTimeoutID w = Some tid
      \<and> p < length (promises w) \<and> promises w ! p = Pending
      \<and> tid < length (timers w) \<and> timers w ! tid = (t, True)
      \<and> visibleSuccessObserver w = Some so
      \<and> so < length (observers w)
      \<and> callback_msgID (observers w ! so) = Some m \<and> connected (observers w ! so)
      \<and> list_all (\<lambda>j. j < length (observers w)
            \<and> (visibleSuccessObserver w = Some j \<or> visibleFailureObserver w = Some j)) obs)"

text \<open>
  The controller as its constructor leaves it (\<^verbatim>\<open>ownMsgPromise = Promise.resolve(-1)\<close>,
  then \<^verbatim>\<open>_promiseOwnMsgReset()\<close>), and a message element with a hidden success
  indicator under \<^verbatim>\<open>.ok\<close> and a hidden failure indicator under \<^verbatim>\<open>.bad\<close>.
\<close>

definition newController :: OwnMsgController where
  "newController =
     \<lparr>promiseOwnMsgSuccessSelector = None, promiseOwnMsgFailureSelector = None,
      promiseOwnMsgResolve = None, promiseOwnMsgReject = None, promiseOwnMsgTimeoutID = None,
      visibleSuccessObserver = None, visibleFailureObserver = None, ownMsgPromise = 0,
      promises = [ResolvedWith (- 1)], timers = [], observers = [], effects = []\<rparr>"

definition sentElement :: OwnMsgElement where
  "sentElement =
     \<lparr>querySelector = (\<lambda>sel. if sel = ''.ok'' then Some \<lparr>ind_node = 7, hidden = True\<rparr>
                             else if sel = ''.bad'' then Some \<lparr>ind_node = 8, hidden = True\<rparr>
                             else None),
      data_local_id = 12\<rparr>"

text \<open>
  A second message element of the same make, with other nodes and the ID 13, and one
  whose \<^verbatim>\<open>data-local-id\<close> is 0.
\<close>

definition nextElement :: OwnMsgElement where
  "nextElement =
     \<lparr>querySelector = (\<lambda>sel. if sel = ''.ok'' then Some \<lparr>ind_node = 17, hidden = True\<rparr>
                             else if sel = ''.bad'' then Some \<lparr>ind_node = 18, hidden = True\<rparr>
                             else None),
      data_local_id = 13\<rparr>"

definition zeroElement :: OwnMsgElement where
  "zeroElement =
     \<lparr>querySelector = (\<lambda>sel. if sel = ''.ok'' then Some \<lparr>ind_node = 27, hidden = True\<rparr>
                             else if sel = ''.bad'' then Some \<lparr>ind_node = 28, hidden = True\<rparr>
                             else None),
      data_local_id = 0\<rparr>"

subsection \<open>Message data of the examples\<close>

text \<open>
  What \<^verbatim>\<open>_parseMessage\<close> has built of an incoming message of a direct chat when the
  wait for its body times out (the data it throws), and the data of a text message
  whose body was read.
\<close>

definition partialMessage :: "int \<Rightarrow> MessageData" where
  "partialMessage i =
     \<lparr>msg_id = i, timestamp = None, is_outgoing = False, sender = None, html = None,
      image = None, member_info = None, receipt_count = None\<rparr>"

definition textMessage :: "int \<Rightarrow> string \<Rightarrow> MessageData" where
  "textMessage i body = (partialMessage i)\<lparr>html := Some body\<rparr>"

text \<open>What \<^verbatim>\<open>_tryParseMemberEvent\<close> returns for the notice of a participant who joined.\<close>

definition memberEvent :: "int \<Rightarrow> string \<Rightarrow> MessageData" where
  "memberEvent i name =
     \<lparr>msg_id = i, timestamp = None, is_outgoing = False, sender = Some name, html = None,
      image = None, member_info = Some \<lparr>invited = False, joined = True, left = False\<rparr>,
      receipt_count = None\<rparr>"

definition remoteNode :: "nat \<Rightarrow> int \<Rightarrow> AddedNode" where
  "remoteNode e i = \<lparr>element = e, local_id = i, own = False\<rparr>"

definition ownNode :: "nat \<Rightarrow> int \<Rightarrow> AddedNode" where
  "ownNode e i = \<lparr>element = e, local_id = i, own = True\<rparr>"

definition deliveredIDs :: "MsgListObserver \<Rightarrow> int list" where
  "deliveredIDs s = map msg_id (delivered s)"

section \<open>Properties\<close>

subsection \<open>Chat types\<close>

text \<open>
  C9. \<open>getChatType\<close> returns DIRECT for every chat ID that starts with \<open>u\<close>, GROUP for
  \<open>c\<close>, ROOM for \<open>r\<close>, and throws (the \<open>Inl\<close> branch) for every other ID, the empty one
  included: a value is returned only for one of the three known prefixes.
\<close>

theorem getChatType_prefix:
  "getChatType (CHR ''u'' # rest) = Inr DIRECT
   \<and> getChatType (CHR ''c'' # rest) = Inr GROUP
   \<and> getChatType (CHR ''r'' # rest) = Inr ROOM
   \<and> (take 1 cid \<noteq> ''u'' \<and> take 1 cid \<noteq> ''c'' \<and> take 1 cid \<noteq> ''r''
        \<longrightarrow> getChatType cid = Inl (InvalidChatID cid))
   \<and> (getChatType cid = Inr t \<longrightarrow>
        (take 1 cid = ''u'' \<and> t = DIRECT) \<or> (take 1 cid = ''c'' \<and> t = GROUP)
        \<or> (take 1 cid = ''r'' \<and> t = ROOM))"
  by (auto simp: getChatType_def charAt_def Let_def split: if_splits)

theorem getChatType_prefix_witness:
  "take 1 ''x123'' \<noteq> ''u'' \<and> take 1 ''x123'' \<noteq> ''c'' \<and> take 1 ''x123'' \<noteq> ''r''
   \<and> getChatType ''x123'' = Inl (InvalidChatID ''x123'')
   \<and> getChatType ''c42'' = Inr GROUP \<and> take 1 ''c42'' = ''c''
   \<and> getChatType [] = Inl (InvalidChatID [])"
  using getChatType_prefix [of "''123''" "''x123''" DIRECT]
    getChatType_prefix [of "''42''" "''c42''" GROUP]
    getChatType_prefix [of "[]" "[]" DIRECT]
  by simp

subsection \<open>Receipt counts\<close>

lemma matchDigits_None_iff: "matchDigits s = None \<longleftrightarrow> filter isDigit s = []"
proof (induction s)
  case Nil
  show ?case by (simp add: matchDigits_def)
next
  case (Cons c cs)
  then show ?case by (simp add: matchDigits_def split: list.splits)
qed

text \<open>
  Facts of the number model: the spacing of the doubles is positive and at most the number
  itself, the factor of the spacing has 53 bits, an integer below \<open>2^53\<close> is its own number
  value, a positive integer never rounds to 0, and only an integer of at least \<open>2^1023\<close>
  can round to \<^verbatim>\<open>Infinity\<close>.
\<close>

lemma ulp_pos: "0 < ulp n"
  by (induction n rule: ulp.induct) (subst ulp.simps, simp)

lemma ulp_small: "n < 2 ^ 53 \<Longrightarrow> ulp n = 1"
  by (subst ulp.simps) simp

lemma ulp_le: "0 < n \<Longrightarrow> ulp n \<le> n"
proof (induction n rule: ulp.induct)
  case (1 n)
  show ?case
  proof (cases "n < 2 ^ 53")
    case True
    with 1(2) show ?thesis by (simp add: ulp_small)
  next
    case False
    then have "0 < n div 2" by simp
    with 1(1) False have "ulp (n div 2) \<le> n div 2" by simp
    then have "2 * ulp (n div 2) \<le> n" by simp
    with False show ?thesis by (subst ulp.simps) simp
  qed
qed

lemma div_ulp_less: "n div ulp n < 2 ^ 53"
proof (induction n rule: ulp.induct)
  case (1 n)
  show ?case
  proof (cases "n < 2 ^ 53")
    case True
    then show ?thesis by (simp add: ulp_small)
  next
    case False
    with 1 have "(n div 2) div ulp (n div 2) < 2 ^ 53" by simp
    moreover have "ulp n = 2 * ulp (n div 2)"
      using False by (subst ulp.simps) simp
    moreover have "n div (2 * ulp (n div 2)) = (n div 2) div ulp (n div 2)"
      by (rule zdiv_zmult2_eq) (rule less_imp_le [OF ulp_pos])
    ultimately show ?thesis by simp
  qed
qed

lemma div_ulp_ge: "2 ^ 53 \<le> n \<Longrightarrow> 2 ^ 52 \<le> n div ulp n"
proof (induction n rule: ulp.induct)
  case (1 n)
  have u: "ulp n = 2 * ulp (n div 2)"
    using 1(2) by (subst ulp.simps) simp
  have d: "n div (2 * ulp (n div 2)) = (n div 2) div ulp (n div 2)"
    by (rule zdiv_zmult2_eq) (rule less_imp_le [OF ulp_pos])
  show ?case
  proof (cases "n div 2 < 2 ^ 53")
    case True
    then have "ulp (n div 2) = 1" by (rule ulp_small)
    with u d 1(2) show ?thesis by simp
  next
    case False
    with 1 have "2 ^ 52 \<le> (n div 2) div ulp (n div 2)" by simp
    with u d show ?thesis by simp
  qed
qed

lemma toNumber_exact: "0 \<le> n \<Longrightarrow> n < 2 ^ 53 \<Longrightarrow> toNumber n = Num n"
  by (simp add: toNumber_def ulp_small Let_def)

lemma toNumber_cases:
  assumes "0 < n"
  shows "toNumber n = Infinity \<or> (\<exists>k. n div ulp n * ulp n \<le> k \<and> toNumber n = Num k)"
  using ulp_pos [of n]
  by (auto simp: toNumber_def Let_def algebra_simps)

lemma toNumber_pos:
  assumes "0 < n"
  shows "toNumber n = Infinity \<or> (\<exists>k. 0 < k \<and> toNumber n = Num k)"
proof -
  have "ulp n \<le> n" using assms by (rule ulp_le)
  then have "0 < n div ulp n"
    using ulp_pos [of n] by (simp add: pos_imp_zdiv_pos_iff)
  then have "0 < n div ulp n * ulp n"
    using ulp_pos [of n] by simp
  with toNumber_cases [OF assms] show ?thesis by force
qed

lemma toNumber_Infinity:
  assumes "toNumber n = Infinity"
  shows "2 ^ 1023 \<le> n"
proof -
  define u where "u = ulp n"
  define q where "q = n div u"
  have up: "0 < u" unfolding u_def by (rule ulp_pos)
  have q: "q < 2 ^ 53" unfolding q_def u_def by (rule div_ulp_less)
  define q' where "q' = (if u < 2 * (n mod u) \<or> (2 * (n mod u) = u \<and> odd q) then q + 1 else q)"
  have q': "q' \<le> q + 1" by (simp add: q'_def)
  have "toNumber n = (if 2 ^ 1024 \<le> q' * u then Infinity else Num (q' * u))"
    by (simp add: toNumber_def Let_def u_def q_def q'_def)
  with assms have v: "2 ^ 1024 \<le> q' * u"
    by (simp split: if_splits)
  from q q' have "q' \<le> 2 ^ 53" by simp
  then have "q' * u \<le> 2 ^ 53 * u" using up by simp
  with v have "(2::int) ^ 53 * 2 ^ 971 \<le> 2 ^ 53 * u" by simp
  then have u971: "2 ^ 971 \<le> u" by simp
  then have "u \<noteq> 1" by simp
  then have "\<not> n < 2 ^ 53" using ulp_small [of n] by (auto simp: u_def)
  then have "2 ^ 53 \<le> n" by (simp only: not_less)
  then have "2 ^ 52 \<le> q" unfolding q_def u_def by (rule div_ulp_ge)
  with u971 have "(2::int) ^ 52 * 2 ^ 971 \<le> q * u"
    by (intro mult_mono) simp_all
  moreover have "q * u \<le> n" unfolding q_def using up
    by (metis div_mult_mod_eq add_increasing2 eq_iff pos_mod_sign)
  ultimately show ?thesis by simp
qed

lemma digitVal_digit: "isDigit c \<Longrightarrow> 0 \<le> digitVal c \<and> digitVal c \<le> 9"
  by (auto simp: isDigit_def digitVal_def)

lemma mathInt_nonneg_aux:
  "list_all isDigit ds \<Longrightarrow> 0 \<le> a \<Longrightarrow> 0 \<le> foldl (\<lambda>n c. 10 * n + digitVal c) a ds"
proof (induction ds arbitrary: a)
  case Nil then show ?case by simp
next
  case (Cons d ds)
  then have "0 \<le> 10 * a + digitVal d" using digitVal_digit [of d] by simp
  with Cons show ?case by simp
qed

lemma mathInt_nonneg: "list_all isDigit ds \<Longrightarrow> 0 \<le> mathInt ds"
  unfolding mathInt_def by (rule mathInt_nonneg_aux) simp_all

lemma matchDigits_digits:
  assumes "matchDigits s = Some m"
  shows "list_all isDigit m \<and> m \<noteq> []"
proof -
  from assms obtain c cs where d: "dropWhile (\<lambda>c. \<not> isDigit c) s = c # cs"
    and m: "m = c # takeWhile isDigit cs"
    by (auto simp: matchDigits_def split: list.splits)
  from d have "isDigit c"
    using hd_dropWhile [of "\<lambda>c. \<not> isDigit c" s] by auto
  moreover have "list_all isDigit (takeWhile isDigit cs)"
    by (simp add: list_all_iff) (meson set_takeWhileD)
  ultimately show ?thesis using m by simp
qed

lemma getReceiptCount_cases:
  "getReceiptCount t = None \<or> getReceiptCount t = Some Infinity
   \<or> (\<exists>k. 0 < k \<and> getReceiptCount t = Some (Num k))"
proof (cases "matchDigits t")
  case None
  then show ?thesis by (simp add: getReceiptCount_def)
next
  case (Some m)
  then have "0 \<le> mathInt m" using matchDigits_digits [of t m] mathInt_nonneg by blast
  then consider "mathInt m = 0" | "0 < mathInt m" by linarith
  then show ?thesis
  proof cases
    case 1
    then show ?thesis using Some
      by (simp add: getReceiptCount_def parseInt_def toNumber_exact)
  next
    case 2
    from toNumber_pos [OF this] show ?thesis using Some
      by (auto simp: getReceiptCount_def parseInt_def Let_def)
  qed
qed

lemma getReceiptCount_nonzero: "getReceiptCount s \<noteq> Some (Num 0)"
  by (simp add: getReceiptCount_def Let_def)

lemma observeReceiptsMulti_loop_nonzero:
  "list_all (\<lambda>r. count r \<noteq> Some (Num 0)) acc \<Longrightarrow>
   list_all (\<lambda>r. count r \<noteq> Some (Num 0)) (observeReceiptsMulti_loop xs ids acc)"
  by (induction xs ids acc rule: observeReceiptsMulti_loop.induct)
     (auto simp: getReceiptCount_nonzero split: option.splits)

text \<open>
  C10, as amended. A receipt count produced by \<open>getReceiptCount\<close> is \<^verbatim>\<open>null\<close>, a
  positive integer or \<^verbatim>\<open>Infinity\<close>, never 0: a text without digits, and a text whose
  first run of digits has the value 0, both give \<^verbatim>\<open>null\<close>; every other text gives the
  number value of its first run of digits, which is the value of the run itself when that
  is below \<open>2^53\<close>, and \<^verbatim>\<open>Infinity\<close> only for a run whose value is \<open>2^1023\<close> or more. So
  the counts of the receipts that \<open>observeReceiptsMulti\<close> reports, and the
  \<open>receipt_count\<close> of a message of a group or a room, are never 0 either.
\<close>

theorem getReceiptCount_never_zero:
  "getReceiptCount t \<noteq> Some (Num 0)
   \<and> (getReceiptCount t = None \<or> getReceiptCount t = Some Infinity
        \<or> (\<exists>k. 0 < k \<and> getReceiptCount t = Some (Num k)))
   \<and> (filter isDigit t = [] \<longrightarrow> getReceiptCount t = None)
   \<and> (matchDigits t = Some m \<and> mathInt m = 0 \<longrightarrow> getReceiptCount t = None)
   \<and> (matchDigits t = Some m \<and> 0 < mathInt m \<longrightarrow> getReceiptCount t = Some (parseInt m))
   \<and> (matchDigits t = Some m \<and> 0 < mathInt m \<and> mathInt m < 2 ^ 53
        \<longrightarrow> getReceiptCount t = Some (Num (mathInt m)))
   \<and> (getReceiptCount t = Some Infinity
        \<longrightarrow> (\<exists>m. matchDigits t = Some m \<and> 2 ^ 1023 \<le> mathInt m))
   \<and> list_all (\<lambda>r. count r \<noteq> Some (Num 0)) (observeReceiptsMulti ms)
   \<and> (chatType \<noteq> DIRECT \<longrightarrow>
        parseMessage_receipt_count chatType outgoing receipt \<noteq> Some (Num 0))"
proof -
  have a: "filter isDigit t = [] \<longrightarrow> getReceiptCount t = None"
    using matchDigits_None_iff [of t] by (auto simp: getReceiptCount_def)
  have b: "matchDigits t = Some m \<and> mathInt m = 0 \<longrightarrow> getReceiptCount t = None"
    by (simp add: getReceiptCount_def parseInt_def toNumber_exact)
  have c: "matchDigits t = Some m \<and> 0 < mathInt m \<longrightarrow> getReceiptCount t = Some (parseInt m)"
    using toNumber_pos [of "mathInt m"]
    by (auto simp: getReceiptCount_def parseInt_def Let_def)
  have d: "matchDigits t = Some m \<and> 0 < mathInt m \<and> mathInt m < 2 ^ 53
        \<longrightarrow> getReceiptCount t = Some (Num (mathInt m))"
    by (simp add: getReceiptCount_def parseInt_def toNumber_exact)
  have e: "getReceiptCount t = Some Infinity
        \<longrightarrow> (\<exists>m. matchDigits t = Some m \<and> 2 ^ 1023 \<le> mathInt m)"
    using toNumber_Infinity
    by (auto simp: getReceiptCount_def parseInt_def Let_def split: option.splits if_splits)
  have f: "list_all (\<lambda>r. count r \<noteq> Some (Num 0)) (observeReceiptsMulti ms)"
    unfolding observeReceiptsMulti_def by (rule observeReceiptsMulti_loop_nonzero) simp
  have g: "chatType \<noteq> DIRECT \<longrightarrow>
      parseMessage_receipt_count chatType outgoing receipt \<noteq> Some (Num 0)"
    by (simp add: parseMessage_receipt_count_def getReceiptCount_nonzero split: option.splits)
  from getReceiptCount_nonzero [of t] getReceiptCount_cases [of t] a b c d e f g
  show ?thesis by blast
qed

theorem getReceiptCount_never_zero_witness:
  "filter isDigit ''Read'' = [] \<and> getReceiptCount ''Read'' = None
   \<and> matchDigits ''Read 0 of 12'' = Some ''0'' \<and> mathInt ''0'' = 0
   \<and> getReceiptCount ''Read 0 of 12'' = None
   \<and> matchDigits ''Read 12'' = Some ''12'' \<and> 0 < mathInt ''12'' \<and> mathInt ''12'' < 2 ^ 53
   \<and> getReceiptCount ''Read 12'' = Some (parseInt ''12'')
   \<and> getReceiptCount ''Read 12'' = Some (Num 12)
   \<and> getReceiptCount (''Read '' @ CHR ''2'' # replicate 310 CHR ''0'') = Some Infinity
   \<and> matchDigits (''Read '' @ CHR ''2'' # replicate 310 CHR ''0'')
        = Some (CHR ''2'' # replicate 310 CHR ''0'')
   \<and> 2 ^ 1023 \<le> mathInt (CHR ''2'' # replicate 310 CHR ''0'')
   \<and> GROUP \<noteq> DIRECT \<and> parseMessage_receipt_count GROUP True None \<noteq> Some (Num 0)"
proof -
  let ?big = "''Read '' @ CHR ''2'' # replicate 310 CHR ''0''"
  have h1: "filter isDigit ''Read'' = []" by (simp add: isDigit_def)
  have h2: "matchDigits ''Read 0 of 12'' = Some ''0'' \<and> mathInt ''0'' = 0"
    by (simp add: matchDigits_def isDigit_def mathInt_def digitVal_def)
  have h3: "matchDigits ''Read 12'' = Some ''12'' \<and> 0 < mathInt ''12''
      \<and> mathInt ''12'' < 2 ^ 53"
    by (simp add: matchDigits_def isDigit_def mathInt_def digitVal_def)
  have m12: "mathInt ''12'' = 12" by (simp add: mathInt_def digitVal_def)
  have h4: "getReceiptCount ?big = Some Infinity" by code_simp
  have m4: "matchDigits ?big = Some (CHR ''2'' # replicate 310 CHR ''0'')" by code_simp
  have h5: "GROUP \<noteq> DIRECT" by simp
  note t1 = getReceiptCount_never_zero [of "''Read''" "''0''" "[]" GROUP True None]
  note t2 = getReceiptCount_never_zero [of "''Read 0 of 12''" "''0''" "[]" GROUP True None]
  note t3 = getReceiptCount_never_zero [of "''Read 12''" "''12''" "[]" GROUP True None]
  note t4 = getReceiptCount_never_zero [of ?big "''0''" "[]" GROUP True None]
  from t1 h1 have a: "getReceiptCount ''Read'' = None" by blast
  from t1 h5 have e: "parseMessage_receipt_count GROUP True None \<noteq> Some (Num 0)" by blast
  from t2 h2 have b: "getReceiptCount ''Read 0 of 12'' = None" by blast
  from t3 h3 have c: "getReceiptCount ''Read 12'' = Some (parseInt ''12'')" by blast
  from t3 h3 have "getReceiptCount ''Read 12'' = Some (Num (mathInt ''12''))" by blast
  then have c': "getReceiptCount ''Read 12'' = Some (Num 12)" by (simp only: m12)
  from t4 h4 obtain m where "matchDigits ?big = Some m" "2 ^ 1023 \<le> mathInt m" by blast
  with m4 have d: "2 ^ 1023 \<le> mathInt (CHR ''2'' # replicate 310 CHR ''0'')" by simp
  from h1 a h2 b h3 c c' h4 m4 d h5 e show ?thesis by blast
qed

text \<open>
  The statement without \<^verbatim>\<open>Infinity\<close> fails: the count of a receipt whose text holds a
  run of 310 digits is neither \<^verbatim>\<open>null\<close> nor an integer. And a count is the number value
  of the run, not always its value: the run 9007199254740993 (\<open>2^53 + 1\<close>) gives the count
  9007199254740992.
\<close>

theorem getReceiptCount_Infinity:
  "getReceiptCount (''Read '' @ CHR ''1'' # replicate 309 CHR ''0'') = Some Infinity
   \<and> getReceiptCount (''Read '' @ CHR ''1'' # replicate 309 CHR ''0'') \<noteq> None
   \<and> matchDigits ''Read 9007199254740993'' = Some ''9007199254740993''
   \<and> mathInt ''9007199254740993'' = 9007199254740993
   \<and> getReceiptCount ''Read 9007199254740993'' = Some (Num 9007199254740992)"
  by code_simp

subsection \<open>Searching the index\<close>


lemma ascending_nth_less:
  "ascending xs \<Longrightarrow> j < k \<Longrightarrow> k < length xs \<Longrightarrow> group_id (xs ! j) < group_id (xs ! k)"
  by (simp add: ascending_def sorted_wrt_iff_nth_less)

lemma findMsgsForID_exact_range:
  "\<not> c \<Longrightarrow> ascending xs \<Longrightarrow> 0 \<le> lo \<Longrightarrow> hi < int (length xs) \<Longrightarrow>
   (\<And>j. j < length xs \<Longrightarrow> group_id (xs ! j) = i \<Longrightarrow> lo \<le> int j \<and> int j \<le> hi) \<Longrightarrow>
   \<exists>r. findMsgsForID xs i c lo hi = Inr r \<and>
       ((r = - 1 \<and> i \<notin> group_id ` set xs) \<or>
        (0 \<le> r \<and> r < int (length xs) \<and> group_id (xs ! nat r) = i))"
proof (induction xs i c lo hi rule: findMsgsForID.induct)
  case (1 xs i c lo hi)
  note nc = "1.prems"(1) and asc = "1.prems"(2) and lo0 = "1.prems"(3)
    and hi_len = "1.prems"(4) and inside = "1.prems"(5)
  from nc have c: "c = False" by simp
  show ?case
  proof (cases "lo > hi")
    case True
    have "i \<notin> group_id ` set xs"
    proof
      assume "i \<in> group_id ` set xs"
      then obtain j where "j < length xs" "group_id (xs ! j) = i"
        by (auto simp: in_set_conv_nth)
      with inside [of j] True show False by simp
    qed
    with True show ?thesis
      by (simp add: findMsgsForID.simps [of xs i c lo hi])
  next
    case False
    define m where "m = lo + (hi - lo) div 2"
    have m_bounds: "lo \<le> m" "m \<le> hi"
      using False by (simp_all add: m_def)
    then have m_in: "0 \<le> m" "m < int (length xs)" "nat m < length xs"
      using lo0 hi_len by simp_all
    have at_m: "at_index xs m = Some (xs ! nat m)"
      using m_in by (simp add: at_index_def)
    have not_gt: "\<not> hi < lo" using False by simp
    have not_closest: "\<not> (c \<and> lo = hi)" using nc by simp
    consider (eq) "group_id (xs ! nat m) = i" | (lt) "group_id (xs ! nat m) < i"
      | (gt) "i < group_id (xs ! nat m)"
      by linarith
    then show ?thesis
    proof cases
      case eq
      with False at_m m_in show ?thesis
        unfolding c by (simp add: findMsgsForID.simps [of xs i False lo hi] m_def [symmetric])
    next
      case lt
      have range: "m + 1 \<le> int j \<and> int j \<le> hi"
        if "j < length xs" "group_id (xs ! j) = i" for j
      proof -
        have "\<not> j \<le> nat m"
        proof
          assume "j \<le> nat m"
          then have "j = nat m \<or> j < nat m" by auto
          then have "group_id (xs ! j) \<le> group_id (xs ! nat m)"
            using ascending_nth_less [OF asc, of j "nat m"] m_in by auto
          with lt that show False by simp
        qed
        with inside [OF that] m_in show ?thesis by simp
      qed
      have step: "findMsgsForID xs i c lo hi = findMsgsForID xs i c (m + 1) hi"
        using False lt at_m unfolding c
        by (simp add: findMsgsForID.simps [of xs i False lo hi] m_def [symmetric])
      have ne: "group_id (xs ! nat m) \<noteq> i" using lt by simp
      have m1: "0 \<le> m + 1" using m_in by simp
      from "1.IH"(1) [OF not_gt not_closest m_def at_m ne lt nc asc m1 hi_len range]
      show ?thesis using step by simp
    next
      case gt
      have range: "lo \<le> int j \<and> int j \<le> m - 1"
        if "j < length xs" "group_id (xs ! j) = i" for j
      proof -
        have "\<not> nat m \<le> j"
        proof
          assume "nat m \<le> j"
          then have "j = nat m \<or> nat m < j" by auto
          then have "group_id (xs ! nat m) \<le> group_id (xs ! j)"
            using ascending_nth_less [OF asc, of "nat m" j] that(1) by auto
          with gt that show False by simp
        qed
        with inside [OF that] m_in show ?thesis by simp
      qed
      have step: "findMsgsForID xs i c lo hi = findMsgsForID xs i c lo (m - 1)"
        using False gt at_m unfolding c
        by (simp add: findMsgsForID.simps [of xs i False lo hi] m_def [symmetric])
      have ne: "group_id (xs ! nat m) \<noteq> i" using gt by simp
      have nlt: "\<not> group_id (xs ! nat m) < i" using gt by simp
      have m1: "m - 1 < int (length xs)" using m_in by simp
      from "1.IH"(2) [OF not_gt not_closest m_def at_m ne nlt nc asc lo0 m1 range]
      show ?thesis using step by simp
    qed
  qed
qed

text \<open>
  C5. On an array strictly ascending by ID, the exact search (\<^verbatim>\<open>returnClosest\<close> false,
  default bounds) returns: no exception, an index whose element has the ID when a group
  with the ID exists, and \<open>-1\<close> when none does. (The function is total: its termination
  is proved with its definition.)
\<close>

theorem findMsgsForID_exact:
  assumes "ascending xs"
  shows "\<exists>r. findMsgsForID_default xs i False = Inr r \<and>
       (if i \<in> group_id ` set xs
        then 0 \<le> r \<and> r < int (length xs) \<and> group_id (xs ! nat r) = i
        else r = - 1)"
proof -
  have "\<exists>r. findMsgsForID xs i False 0 (int (length xs) - 1) = Inr r \<and>
       ((r = - 1 \<and> i \<notin> group_id ` set xs) \<or>
        (0 \<le> r \<and> r < int (length xs) \<and> group_id (xs ! nat r) = i))"
    by (rule findMsgsForID_exact_range) (use assms in auto)
  then obtain r where r: "findMsgsForID xs i False 0 (int (length xs) - 1) = Inr r"
    "(r = - 1 \<and> i \<notin> group_id ` set xs) \<or>
        (0 \<le> r \<and> r < int (length xs) \<and> group_id (xs ! nat r) = i)"
    by blast
  have "i \<in> group_id ` set xs" if "0 \<le> r" "r < int (length xs)" "group_id (xs ! nat r) = i"
  proof -
    have "xs ! nat r \<in> set xs" using that by simp
    with that(3) show ?thesis by force
  qed
  with r show ?thesis
    by (auto simp: findMsgsForID_default_def)
qed

theorem findMsgsForID_exact_witness:
  "ascending (map newSameIDMsgs [\<lparr>promise = 1, pm_id = 10\<rparr>, \<lparr>promise = 2, pm_id = 20\<rparr>, \<lparr>promise = 3, pm_id = 30\<rparr>])
   \<and> findMsgsForID_default (map newSameIDMsgs [\<lparr>promise = 1, pm_id = 10\<rparr>, \<lparr>promise = 2, pm_id = 20\<rparr>, \<lparr>promise = 3, pm_id = 30\<rparr>]) 30 False = Inr 2
   \<and> findMsgsForID_default (map newSameIDMsgs [\<lparr>promise = 1, pm_id = 10\<rparr>, \<lparr>promise = 2, pm_id = 20\<rparr>, \<lparr>promise = 3, pm_id = 30\<rparr>]) 25 False = Inr (- 1)"
proof -
  let ?xs = "map newSameIDMsgs [\<lparr>promise = 1, pm_id = 10\<rparr>, \<lparr>promise = 2, pm_id = 20\<rparr>, \<lparr>promise = 3, pm_id = 30\<rparr>]"
  have a: "ascending ?xs"
    by (simp add: ascending_def newSameIDMsgs_def)
  have ids: "group_id ` set ?xs = {10, 20, 30}"
    by (simp add: newSameIDMsgs_def)
  from findMsgsForID_exact [OF a, of 30] obtain r where
    r: "findMsgsForID_default ?xs 30 False = Inr r" "0 \<le> r" "r < 3" "group_id (?xs ! nat r) = 30"
    unfolding ids by auto
  have "r = 0 \<or> r = 1 \<or> r = 2" using r(2,3) by auto
  with r(4) have "r = 2" by (auto simp: newSameIDMsgs_def)
  moreover from findMsgsForID_exact [OF a, of 25] have "findMsgsForID_default ?xs 25 False = Inr (- 1)"
    unfolding ids by auto
  ultimately show ?thesis using a r(1) by simp
qed

text \<open>
  Whatever the array and the flag, the search with the default bounds throws nothing and
  returns an index from \<open>-1\<close> to the last one.
\<close>

lemma findMsgsForID_bounds:
  "0 \<le> lo \<Longrightarrow> - 1 \<le> hi \<Longrightarrow> hi < int (length xs) \<Longrightarrow>
   \<exists>r. findMsgsForID xs i c lo hi = Inr r \<and> - 1 \<le> r \<and> r \<le> hi"
proof (induction xs i c lo hi rule: findMsgsForID.induct)
  case (1 xs i c lo hi)
  note lo0 = "1.prems"(1) and hi1 = "1.prems"(2) and hi_len = "1.prems"(3)
  show ?case
  proof (cases "lo > hi")
    case True
    with lo0 hi1 show ?thesis
      by (simp add: findMsgsForID.simps [of xs i c lo hi])
  next
    case False
    note not_gt = this
    show ?thesis
    proof (cases "c \<and> lo = hi")
      case True
      then have c: "c = True" and eq: "lo = hi" by simp_all
      from lo0 hi_len show ?thesis
        unfolding c eq by (simp add: findMsgsForID.simps [of xs i True hi hi] at_index_def)
    next
      case False
      define m where "m = lo + (hi - lo) div 2"
      have m_bounds: "lo \<le> m" "m \<le> hi"
        using not_gt by (simp_all add: m_def)
      then have m_in: "0 \<le> m" "m < int (length xs)"
        using lo0 hi_len by simp_all
      have at_m: "at_index xs m = Some (xs ! nat m)"
        using m_in by (simp add: at_index_def)
      have not_gt': "\<not> hi < lo" using not_gt by simp
      have unfold: "findMsgsForID xs i c lo hi =
          (if group_id (xs ! nat m) = i then Inr m
           else if group_id (xs ! nat m) < i then findMsgsForID xs i c (m + 1) hi
           else findMsgsForID xs i c lo (m - 1))"
        apply (subst findMsgsForID.simps)
        using not_gt False at_m by (auto simp: m_def [symmetric] Let_def)
      consider (eq) "group_id (xs ! nat m) = i" | (lt) "group_id (xs ! nat m) < i"
        | (gt) "i < group_id (xs ! nat m)"
        by linarith
      then show ?thesis
      proof cases
        case eq
        with unfold m_in m_bounds show ?thesis by simp
      next
        case lt
        have ne: "group_id (xs ! nat m) \<noteq> i" using lt by simp
        have m1: "0 \<le> m + 1" using m_in by simp
        from "1.IH"(1) [OF not_gt' False m_def at_m ne lt m1 hi1 hi_len]
        show ?thesis using unfold lt by simp
      next
        case gt
        have ne: "group_id (xs ! nat m) \<noteq> i" using gt by simp
        have nlt: "\<not> group_id (xs ! nat m) < i" using gt by simp
        have m1: "m - 1 < int (length xs)" using m_in by simp
        have m2: "- 1 \<le> m - 1" using m_in by simp
        from "1.IH"(2) [OF not_gt' False m_def at_m ne nlt lo0 m2 m1]
        obtain r where "findMsgsForID xs i c lo (m - 1) = Inr r" "- 1 \<le> r" "r \<le> m - 1"
          by blast
        with unfold gt m_bounds show ?thesis by simp
      qed
    qed
  qed
qed

lemma findMsgsForID_default_bounds:
  "\<exists>r. findMsgsForID_default xs i c = Inr r \<and> - 1 \<le> r \<and> r < int (length xs)"
proof -
  have "\<exists>r. findMsgsForID xs i c 0 (int (length xs) - 1) = Inr r \<and> - 1 \<le> r
      \<and> r \<le> int (length xs) - 1"
    by (rule findMsgsForID_bounds) simp_all
  then show ?thesis
    by (auto simp: findMsgsForID_default_def)
qed

text \<open>On an ascending array the search finds the group of an ID that has one, with either flag.\<close>

lemma ascending_unique:
  "ascending xs \<Longrightarrow> j < length xs \<Longrightarrow> k < length xs \<Longrightarrow>
   group_id (xs ! j) = group_id (xs ! k) \<Longrightarrow> j = k"
  using ascending_nth_less [of xs j k] ascending_nth_less [of xs k j]
  by (cases j k rule: linorder_cases) auto

lemma findMsgsForID_finds:
  "ascending xs \<Longrightarrow> 0 \<le> lo \<Longrightarrow> hi < int (length xs) \<Longrightarrow> j < length xs \<Longrightarrow>
   group_id (xs ! j) = i \<Longrightarrow> lo \<le> int j \<Longrightarrow> int j \<le> hi \<Longrightarrow>
   findMsgsForID xs i c lo hi = Inr (int j)"
proof (induction xs i c lo hi rule: findMsgsForID.induct)
  case (1 xs i c lo hi)
  note asc = "1.prems"(1) and lo0 = "1.prems"(2) and hi_len = "1.prems"(3)
    and j_len = "1.prems"(4) and at_j = "1.prems"(5) and lo_j = "1.prems"(6)
    and j_hi = "1.prems"(7)
  have not_gt: "\<not> hi < lo" using lo_j j_hi by simp
  show ?case
  proof (cases "c \<and> lo = hi")
    case True
    then have c: "c = True" and eq: "lo = hi" by simp_all
    have j: "int j = hi" using lo_j j_hi eq by simp
    then have "at_index xs hi = Some (xs ! j)"
      using j_len by (auto simp: at_index_def)
    with at_j j show ?thesis
      unfolding c eq by (simp add: findMsgsForID.simps [of xs i True hi hi])
  next
    case False
    define m where "m = lo + (hi - lo) div 2"
    have m_bounds: "lo \<le> m" "m \<le> hi"
      using not_gt by (simp_all add: m_def)
    then have m_in: "0 \<le> m" "m < int (length xs)" "nat m < length xs"
      using lo0 hi_len by simp_all
    have at_m: "at_index xs m = Some (xs ! nat m)"
      using m_in by (simp add: at_index_def)
    have unfold: "findMsgsForID xs i c lo hi =
        (if group_id (xs ! nat m) = i then Inr m
         else if group_id (xs ! nat m) < i then findMsgsForID xs i c (m + 1) hi
         else findMsgsForID xs i c lo (m - 1))"
      apply (subst findMsgsForID.simps)
      using not_gt False at_m by (auto simp: m_def [symmetric] Let_def)
    consider (eq) "group_id (xs ! nat m) = i" | (lt) "group_id (xs ! nat m) < i"
      | (gt) "i < group_id (xs ! nat m)"
      by linarith
    then show ?thesis
    proof cases
      case eq
      then have "nat m = j"
        using ascending_unique [OF asc m_in(3) j_len] at_j by simp
      with unfold eq m_in show ?thesis by simp
    next
      case lt
      have "\<not> j \<le> nat m"
      proof
        assume "j \<le> nat m"
        then have "j = nat m \<or> j < nat m" by auto
        then have "group_id (xs ! j) \<le> group_id (xs ! nat m)"
          using ascending_nth_less [OF asc, of j "nat m"] m_in by auto
        with lt at_j show False by simp
      qed
      then have range: "m + 1 \<le> int j" using m_in by simp
      have ne: "group_id (xs ! nat m) \<noteq> i" using lt by simp
      have m1: "0 \<le> m + 1" using m_in by simp
      from "1.IH"(1) [OF not_gt False m_def at_m ne lt asc m1 hi_len j_len at_j range j_hi]
      show ?thesis using unfold lt by simp
    next
      case gt
      have "\<not> nat m \<le> j"
      proof
        assume "nat m \<le> j"
        then have "j = nat m \<or> nat m < j" by auto
        then have "group_id (xs ! nat m) \<le> group_id (xs ! j)"
          using ascending_nth_less [OF asc, of "nat m" j] j_len by auto
        with gt at_j show False by simp
      qed
      then have range: "int j \<le> m - 1" using m_in by simp
      have ne: "group_id (xs ! nat m) \<noteq> i" using gt by simp
      have nlt: "\<not> group_id (xs ! nat m) < i" using gt by simp
      have m1: "m - 1 < int (length xs)" using m_in by simp
      from "1.IH"(2) [OF not_gt False m_def at_m ne nlt asc lo0 m1 j_len at_j lo_j range]
      show ?thesis using unfold gt by simp
    qed
  qed
qed

subsection \<open>Inserting into the index\<close>

text \<open>
  C4. \<open>insertMsgByID\<close> is meant to keep the array strictly ascending. It does not: on
  the array of the four groups 10, 20, 30, 40 (ascending) a message with the ID 25 makes
  the search with \<^verbatim>\<open>returnClosest\<close> look at the range of the indices 2 to 3, then at
  the empty range 2 to 1, for which it answers \<open>-1\<close>; the new group is spliced in at the
  front. In the observer, a second element with the ID 25 then gets a second group of the
  same ID.
\<close>

theorem insertMsgByID_out_of_order:
  "ascending (deref (map newSameIDMsgs
       [\<lparr>promise = 1, pm_id = 10\<rparr>, \<lparr>promise = 2, pm_id = 20\<rparr>,
        \<lparr>promise = 3, pm_id = 30\<rparr>, \<lparr>promise = 4, pm_id = 40\<rparr>]) [0, 1, 2, 3])
   \<and> findMsgsForID_default (map newSameIDMsgs
       [\<lparr>promise = 1, pm_id = 10\<rparr>, \<lparr>promise = 2, pm_id = 20\<rparr>,
        \<lparr>promise = 3, pm_id = 30\<rparr>, \<lparr>promise = 4, pm_id = 40\<rparr>]) 25 True = Inr (- 1)
   \<and> (case insertMsgByID (map newSameIDMsgs
       [\<lparr>promise = 1, pm_id = 10\<rparr>, \<lparr>promise = 2, pm_id = 20\<rparr>,
        \<lparr>promise = 3, pm_id = 30\<rparr>, \<lparr>promise = 4, pm_id = 40\<rparr>]) [0, 1, 2, 3]
          \<lparr>promise = 5, pm_id = 25\<rparr> of
        Inl e \<Rightarrow> False
      | Inr (objs, arr, sameIDMsgs) \<Rightarrow>
          arr = [4, 0, 1, 2, 3] \<and> sameIDMsgs = 4
          \<and> map group_id (deref objs arr) = [25, 10, 20, 30, 40]
          \<and> \<not> ascending (deref objs arr))
   \<and> (case run (addMsgListObserver 0)
           [Added [remoteNode 1 10, remoteNode 2 20, remoteNode 3 30, remoteNode 4 40],
            Added [remoteNode 5 25], Added [remoteNode 6 25]] of
        Inl e \<Rightarrow> False
      | Inr s \<Rightarrow>
          map group_id (deref (objects s) (sortedSameIDMsgs s)) = [25, 25, 10, 20, 30, 40])"
  by code_simp

text \<open>
  What does hold: on an ascending array, a message whose ID has a group is appended to
  that group, and the array is left as it is.
\<close>

lemma insertMsgByID_existing:
  assumes "ascending (deref objs arr)" and "j < length arr"
    and "group_id (objs ! (arr ! j)) = pm_id msg"
  shows "insertMsgByID objs arr msg =
    Inr (objs[arr ! j := (objs ! (arr ! j))\<lparr>msgs := msgs (objs ! (arr ! j)) @ [msg]\<rparr>],
         arr, arr ! j)"
proof -
  have len: "length (deref objs arr) = length arr" by (simp add: deref_def)
  have at: "group_id (deref objs arr ! j) = pm_id msg"
    using assms(2,3) by (simp add: deref_def)
  have "findMsgsForID (deref objs arr) (pm_id msg) True 0 (int (length (deref objs arr)) - 1)
      = Inr (int j)"
    by (rule findMsgsForID_finds [OF assms(1)]) (use assms(2) at len in simp_all)
  then have "findMsgsForID_default (deref objs arr) (pm_id msg) True = Inr (int j)"
    by (simp add: findMsgsForID_default_def)
  with assms(2,3) show ?thesis
    by (simp add: insertMsgByID_def at_index_def Let_def)
qed

subsection \<open>The order of delivery\<close>

text \<open>
  C1. The messages are meant to reach \<^verbatim>\<open>__mautrixReceiveMessages\<close> in ascending order
  of ID. They do not when a later message is rejected first: the elements 9 and 10 are
  added, the parse of 10 is rejected (its only attempt, so the ID is abandoned and its
  data sent at once, the head of the array, which is the group of 9, being shifted out),
  then the parse of 9 is rejected: the messages go out as 10, 9.
\<close>

theorem delivery_out_of_order:
  "(case run (addMsgListObserver 0)
           [Added [remoteNode 1 9, remoteNode 2 10], Rejected 2 (partialMessage 10), Sent,
            Rejected 1 (partialMessage 9)] of
      Inl e \<Rightarrow> False
    | Inr s \<Rightarrow> deliveredIDs s = [10, 9] \<and> \<not> sorted_wrt (<) (deliveredIDs s))"
  by code_simp

text \<open>
  Two runs in which the order is kept, as the observer intends: the element 10 resolves
  before the element 9 and waits; once 9 has resolved (first run) or has been rejected and
  abandoned (second run) and its message is sent, 10 is woken and sent after it.
\<close>

lemma delivery_deferred_until_earlier_handled:
  "(case run (addMsgListObserver 0)
           [Added [remoteNode 1 9, remoteNode 2 10], Resolved 2 (textMessage 10 ''b''),
            Resolved 1 (textMessage 9 ''a''), Sent, Resumed, Sent] of
      Inl e \<Rightarrow> False
    | Inr s \<Rightarrow> delivered s = [textMessage 9 ''a'', textMessage 10 ''b''])
   \<and> (case run (addMsgListObserver 0)
           [Added [remoteNode 1 9, remoteNode 2 10], Resolved 2 (textMessage 10 ''b''),
            Rejected 1 (partialMessage 9), Sent, Resumed, Sent] of
      Inl e \<Rightarrow> False
    | Inr s \<Rightarrow> delivered s = [partialMessage 9, textMessage 10 ''b''])"
  by code_simp

text \<open>
  C2. A group with an attempt that resolves is meant to deliver the resolved record, and
  a group whose attempts are all rejected to deliver at its turn. Here the group of 10 is
  rejected while the group of 9 is the head: the data of 10 goes out at once and the
  group of 9 is shifted out of the array. When the only attempt of 9 resolves, the search
  finds no group for it and the resolved record is dropped: nothing is pending any more
  and the only message sent is the partial one of 10.
\<close>

theorem resolved_message_dropped:
  "(case run (addMsgListObserver 0)
           [Added [remoteNode 1 9, remoteNode 2 10], Rejected 2 (partialMessage 10)] of
      Inl e \<Rightarrow> False
    | Inr s \<Rightarrow> delivered s = [partialMessage 10]
               \<and> map group_id (deref (objects s) (sortedSameIDMsgs s)) = [10]
               \<and> map fst (tasks s) = [1])
   \<and> (case run (addMsgListObserver 0)
           [Added [remoteNode 1 9, remoteNode 2 10], Rejected 2 (partialMessage 10), Sent,
            Resolved 1 (textMessage 9 ''hello'')] of
      Inl e \<Rightarrow> False
    | Inr s \<Rightarrow> delivered s = [partialMessage 10]
               \<and> tasks s = [] \<and> waiters s = [] \<and> woken s = [] \<and> sending s = 0)"
  by code_simp

text \<open>
  C3. \<open>minID\<close> is meant never to decrease. \<open>handleMessage\<close> assigns it without the
  comparison that the handler of the own message makes. With the run of C1 it goes from
  10 back to 9; and with no rejection at all: the remote element 9 is pending, the
  bridge's own message 10 resolves (\<open>minID\<close> becomes 10), then 9 resolves and is sent
  (\<open>minID\<close> becomes 9).
\<close>

theorem minID_decreases:
  "(case run (addMsgListObserver 0)
           [Added [remoteNode 1 9, remoteNode 2 10], Rejected 2 (partialMessage 10)] of
      Inl e \<Rightarrow> False | Inr s \<Rightarrow> minID s = 10)
   \<and> (case run (addMsgListObserver 0)
           [Added [remoteNode 1 9, remoteNode 2 10], Rejected 2 (partialMessage 10), Sent,
            Rejected 1 (partialMessage 9)] of
      Inl e \<Rightarrow> False | Inr s \<Rightarrow> minID s = 9)
   \<and> (case run (addMsgListObserver 0)
           [Added [remoteNode 1 9, ownNode 2 10], OwnResolved 2 10] of
      Inl e \<Rightarrow> False | Inr s \<Rightarrow> minID s = 10)
   \<and> (case run (addMsgListObserver 0)
           [Added [remoteNode 1 9, ownNode 2 10], OwnResolved 2 10,
            Resolved 1 (textMessage 9 ''hello'')] of
      Inl e \<Rightarrow> False | Inr s \<Rightarrow> minID s = 9 \<and> deliveredIDs s = [9])"
  by code_simp

text \<open>
  What does hold: the handler of a rejection sends a message only when the rejections of
  its group have reached the number of the group's attempts, and then it sends the data
  of that rejection.
\<close>

lemma rejection_sends_only_when_all_rejected:
  assumes "step s (Rejected messageElement messageData) = Inr s'"
    and "map_of (tasks s) messageElement = Some g"
    and "delivered s' \<noteq> delivered s"
  shows "numRejected (objects s ! g) + 1 = length (msgs (objects s ! g))"
    and "delivered s' = delivered s @ [messageData]"
  using assms by (auto simp: Let_def handleMessage_def split: if_splits)

subsection \<open>Receipts of the whole list\<close>

lemma atLeastCount_mono: "atLeastCount c m' \<Longrightarrow> m \<le> m' \<Longrightarrow> atLeastCount c m"
  by (cases c) (simp_all add: atLeastCount_def)

lemma scanReceipts_new:
  "r \<in> set (scanReceipts rctIDs numOthers w m rs) \<Longrightarrow>
   \<exists>c. count r = Some c \<and> atLeastCount c m \<and> watermark rctIDs c < rid r"
proof (induction rs arbitrary: m)
  case Nil
  then show ?case by simp
next
  case (Cons x xs)
  show ?case
  proof (cases "count x")
    case None
    with Cons.prems have "r \<in> set (scanReceipts rctIDs numOthers w m xs)"
      by (simp split: if_splits)
    then show ?thesis by (rule Cons.IH)
  next
    case (Some c)
    show ?thesis
    proof (cases "atLeastCount c m \<and> watermark rctIDs c < rid x")
      case True
      show ?thesis
      proof (cases "r = x")
        case True
        with Some \<open>atLeastCount c m \<and> watermark rctIDs c < rid x\<close> show ?thesis by simp
      next
        case False
        with Some True Cons.prems obtain k where c: "c = Num k"
          and r: "r \<in> set (scanReceipts rctIDs numOthers w (k + 1) xs)"
          by (cases c) (auto simp: belowCount_def split: if_splits)
        from Cons.IH [OF r] obtain c' where c': "count r = Some c'"
          "atLeastCount c' (k + 1)" "watermark rctIDs c' < rid r"
          by blast
        from True c have "m \<le> k + 1" by (simp add: atLeastCount_def)
        with c' atLeastCount_mono show ?thesis by blast
      qed
    next
      case False
      with Some Cons.prems have "r \<in> set (scanReceipts rctIDs numOthers w m xs)"
        by (auto split: if_splits)
      then show ?thesis by (rule Cons.IH)
    qed
  qed
qed

lemma scanReceipts_exit:
  "notReported rctIDs m r \<Longrightarrow> rid r \<le> w \<Longrightarrow> scanReceipts rctIDs numOthers w m (r # earlier) = []"
  by (auto simp: notReported_def split: option.splits)

lemma scanReceipts_stop:
  "notReported rctIDs 0 r \<Longrightarrow> rid r \<le> w \<Longrightarrow> 0 \<le> m \<Longrightarrow>
   scanReceipts rctIDs numOthers w m (later @ r # earlier) = scanReceipts rctIDs numOthers w m (later @ [r])"
proof (induction later arbitrary: m)
  case Nil
  have "notReported rctIDs m r"
    using Nil atLeastCount_mono [of _ m 0]
    by (auto simp: notReported_def split: option.splits)
  then have "scanReceipts rctIDs numOthers w m (r # es) = []" for es
    using Nil(2) by (rule scanReceipts_exit)
  then show ?case by (simp only: append_Nil)
next
  case (Cons x xs)
  note ih = Cons.IH [OF Cons.prems(1) Cons.prems(2)]
  show ?case
  proof (cases "count x")
    case None
    with ih [OF Cons.prems(3)] show ?thesis by simp
  next
    case (Some c)
    show ?thesis
    proof (cases c)
      case (Num k)
      show ?thesis
      proof (cases "m \<le> k")
        case True
        with Cons.prems(3) have "0 \<le> k + 1" by simp
        from ih [OF this] ih [OF Cons.prems(3)] Some Num show ?thesis
          by (simp add: atLeastCount_def belowCount_def)
      next
        case False
        with ih [OF Cons.prems(3)] Some Num show ?thesis
          by (simp add: atLeastCount_def belowCount_def)
      qed
    next
      case Infinity
      with ih [OF Cons.prems(3)] Some show ?thesis
        by (simp add: atLeastCount_def belowCount_def)
    qed
  qed
qed

lemma readReceipts_append:
  "readReceipts d (pre @ e # suf) = Inr rs \<Longrightarrow>
   \<exists>ps r ss. readReceipts d pre = Inr ps \<and> readReceipts d (e # suf) = Inr (r # ss)
      \<and> rs = ps @ r # ss \<and> Some (rid r) = closestID e
      \<and> count r = (if d then Some (Num 1) else getReceiptCount (innerText e))"
proof (induction pre arbitrary: rs)
  case Nil
  then show ?case by (auto split: option.splits sum.splits)
next
  case (Cons x xs)
  from Cons.prems obtain i rs' where x: "closestID x = Some i"
    and rs': "readReceipts d (xs @ e # suf) = Inr rs'"
    and rs: "rs = \<lparr>rid = i, count = (if d then Some (Num 1) else getReceiptCount (innerText x))\<rparr> # rs'"
    by (auto split: option.splits sum.splits)
  from Cons.IH [OF rs'] obtain ps r ss where
    "readReceipts d xs = Inr ps" "readReceipts d (e # suf) = Inr (r # ss)"
    "rs' = ps @ r # ss" "Some (rid r) = closestID e"
    "count r = (if d then Some (Num 1) else getReceiptCount (innerText e))"
    by blast
  with x rs show ?case by simp
qed

text \<open>
  C6, as amended. Every receipt that \<open>parseReceiptList\<close> returns has an ID above the
  watermark of its own tier (a missing tier counting as 0). The scan backwards stops at a
  receipt that it does not report and whose ID is at or below the watermark of the
  fully-read tier: nothing is reported from there on, whatever comes earlier in the list;
  so the indicators before one whose ID is at or below both its own tier's watermark and
  the fully-read one do not change the result.
\<close>

theorem parseReceiptList_newer:
  "(parseReceiptList rctIDs cur cnt elems = Inr rs \<longrightarrow> list_all (newerThanTier rctIDs) rs)
   \<and> (notReported rctIDs m r \<and> rid r \<le> w \<longrightarrow>
        scanReceipts rctIDs numOthers w m (r # earlier) = [])
   \<and> (parseReceiptList rctIDs cur cnt (pre @ e # suf) = Inr rs'
        \<and> getCurrentChatType cur = Inr ty
        \<and> (if ty = DIRECT then Some 1 else map_option (\<lambda>k. int k - 1) cnt) = Some n
        \<and> closestID e = Some i \<and> i \<le> watermark rctIDs (Num n)
        \<and> notReported rctIDs 0
             \<lparr>rid = i, count = (if ty = DIRECT then Some (Num 1) else getReceiptCount (innerText e))\<rparr>
        \<longrightarrow> parseReceiptList rctIDs cur cnt (e # suf) = Inr rs')"
proof (intro conjI impI)
  assume parsed: "parseReceiptList rctIDs cur cnt elems = Inr rs"
  have "newerThanTier rctIDs x" if "x \<in> set rs" for x
  proof -
    from parsed that obtain k v j rs0 where "x \<in> set (scanReceipts rctIDs k v j rs0)"
      by (auto simp: parseReceiptList_def Let_def split: sum.splits option.splits if_splits)
    from scanReceipts_new [OF this] show ?thesis
      by (auto simp: newerThanTier_def)
  qed
  then show "list_all (newerThanTier rctIDs) rs"
    by (simp add: list_all_iff)
next
  assume "notReported rctIDs m r \<and> rid r \<le> w"
  then have "notReported rctIDs m r" "rid r \<le> w" by simp_all
  then show "scanReceipts rctIDs numOthers w m (r # earlier) = []"
    by (rule scanReceipts_exit)
next
  assume h: "parseReceiptList rctIDs cur cnt (pre @ e # suf) = Inr rs'
        \<and> getCurrentChatType cur = Inr ty
        \<and> (if ty = DIRECT then Some 1 else map_option (\<lambda>k. int k - 1) cnt) = Some n
        \<and> closestID e = Some i \<and> i \<le> watermark rctIDs (Num n)
        \<and> notReported rctIDs 0
             \<lparr>rid = i, count = (if ty = DIRECT then Some (Num 1) else getReceiptCount (innerText e))\<rparr>"
  let ?d = "ty = DIRECT"
  from h obtain all where all: "readReceipts ?d (pre @ e # suf) = Inr all"
    and rs: "rs' = scanReceipts rctIDs n (watermark rctIDs (Num n)) 1 (rev all)"
    by (auto simp: parseReceiptList_def Let_def split: sum.splits option.splits if_splits)
  from readReceipts_append [OF all] obtain ps x ss where
    ps: "readReceipts ?d pre = Inr ps" and ess: "readReceipts ?d (e # suf) = Inr (x # ss)"
    and split: "all = ps @ x # ss" and rid: "Some (rid x) = closestID e"
    and cnt: "count x = (if ?d then Some (Num 1) else getReceiptCount (innerText e))"
    by blast
  have x_eq: "x = \<lparr>rid = i, count = (if ?d then Some (Num 1) else getReceiptCount (innerText e))\<rparr>"
    using rid cnt h by simp
  have nr: "notReported rctIDs 0 x" using h x_eq by simp
  have le: "rid x \<le> watermark rctIDs (Num n)" using h x_eq by simp
  have "rs' = scanReceipts rctIDs n (watermark rctIDs (Num n)) 1 (rev ss @ x # rev ps)"
    using rs split by simp
  also have "\<dots> = scanReceipts rctIDs n (watermark rctIDs (Num n)) 1 (rev ss @ [x])"
    by (rule scanReceipts_stop [OF nr le]) simp
  finally have "rs' = scanReceipts rctIDs n (watermark rctIDs (Num n)) 1 (rev (x # ss))" by simp
  with ess h show "parseReceiptList rctIDs cur cnt (e # suf) = Inr rs'"
    by (auto simp: parseReceiptList_def Let_def split: if_splits)
qed

theorem parseReceiptList_newer_witness:
  "parseReceiptList [Num 3 \<mapsto> 10, Num 1 \<mapsto> 7] (Some ''c1'') (Some 4)
        [\<lparr>closestID = Some 5, innerText = ''Read 3''\<rparr>, \<lparr>closestID = Some 7, innerText = ''Read 1''\<rparr>,
         \<lparr>closestID = Some 9, innerText = ''Read 1''\<rparr>]
      = Inr [\<lparr>rid = 9, count = Some (Num 1)\<rparr>]
   \<and> list_all (newerThanTier [Num 3 \<mapsto> 10, Num 1 \<mapsto> 7]) [\<lparr>rid = 9, count = Some (Num 1)\<rparr>]
   \<and> notReported [Num 3 \<mapsto> 10, Num 1 \<mapsto> 7] 2 \<lparr>rid = 7, count = Some (Num 1)\<rparr>
   \<and> rid \<lparr>rid = 7, count = Some (Num 1)\<rparr> \<le> 10
   \<and> scanReceipts [Num 3 \<mapsto> 10, Num 1 \<mapsto> 7] 3 10 2 [\<lparr>rid = 7, count = Some (Num 1)\<rparr>, \<lparr>rid = 5, count = Some (Num 3)\<rparr>] = []
   \<and> getCurrentChatType (Some ''c1'') = Inr GROUP
   \<and> 7 \<le> watermark [Num 3 \<mapsto> 10, Num 1 \<mapsto> 7] (Num 3)
   \<and> notReported [Num 3 \<mapsto> 10, Num 1 \<mapsto> 7] 0 \<lparr>rid = 7, count = getReceiptCount ''Read 1''\<rparr>
   \<and> parseReceiptList [Num 3 \<mapsto> 10, Num 1 \<mapsto> 7] (Some ''c1'') (Some 4)
        [\<lparr>closestID = Some 7, innerText = ''Read 1''\<rparr>, \<lparr>closestID = Some 9, innerText = ''Read 1''\<rparr>]
      = Inr [\<lparr>rid = 9, count = Some (Num 1)\<rparr>]"
proof -
  let ?R = "[Num 3 \<mapsto> 10, Num 1 \<mapsto> (7::int)]"
  let ?e5 = "\<lparr>closestID = Some 5, innerText = ''Read 3''\<rparr>"
  let ?e7 = "\<lparr>closestID = Some 7, innerText = ''Read 1''\<rparr>"
  let ?e9 = "\<lparr>closestID = Some 9, innerText = ''Read 1''\<rparr>"
  have p: "parseReceiptList ?R (Some ''c1'') (Some 4) ([?e5] @ ?e7 # [?e9])
      = Inr [\<lparr>rid = 9, count = Some (Num 1)\<rparr>]"
    by code_simp
  have nr: "notReported ?R 2 \<lparr>rid = 7, count = Some (Num 1)\<rparr>" "rid \<lparr>rid = 7, count = Some (Num 1)\<rparr> \<le> (10::int)"
    by code_simp+
  have ty: "getCurrentChatType (Some ''c1'') = Inr GROUP" by code_simp
  have n: "(if GROUP = DIRECT then Some 1 else map_option (\<lambda>k. int k - 1) (Some 4)) = Some 3"
    by simp
  have w: "7 \<le> watermark ?R (Num 3)" by code_simp
  have nr0: "notReported ?R 0
      \<lparr>rid = 7, count = (if GROUP = DIRECT then Some (Num 1) else getReceiptCount (innerText ?e7))\<rparr>"
    by code_simp
  have nr0': "notReported ?R 0 \<lparr>rid = 7, count = getReceiptCount ''Read 1''\<rparr>"
    by code_simp
  note t = parseReceiptList_newer [of ?R "Some ''c1''" "Some 4" "[?e5] @ ?e7 # [?e9]"
      "[\<lparr>rid = 9, count = Some (Num 1)\<rparr>]" 2 "\<lparr>rid = 7, count = Some (Num 1)\<rparr>" 10 3
      "[\<lparr>rid = 5, count = Some (Num 3)\<rparr>]" "[?e5]" ?e7 "[?e9]" "[\<lparr>rid = 9, count = Some (Num 1)\<rparr>]"
      GROUP 3 7]
  from t p have a: "list_all (newerThanTier ?R) [\<lparr>rid = 9, count = Some (Num 1)\<rparr>]" by blast
  from t nr have b: "scanReceipts ?R 3 10 2 [\<lparr>rid = 7, count = Some (Num 1)\<rparr>, \<lparr>rid = 5, count = Some (Num 3)\<rparr>] = []"
    by blast
  have cid: "closestID ?e7 = Some 7" by simp
  from t p ty n cid w nr0 have c: "parseReceiptList ?R (Some ''c1'') (Some 4) (?e7 # [?e9])
      = Inr [\<lparr>rid = 9, count = Some (Num 1)\<rparr>]"
    by blast
  from p a nr b ty w nr0' c show ?thesis by simp
qed

text \<open>
  The stronger statement, that the scan stops at any receipt whose ID is at or below the
  watermark of the fully-read tier, fails: with three others in the chat and the
  watermark 10 for the tier 3 only, the scan reaches the receipt 8 (read by 1), reports
  it, goes on to the receipt 6 (read by 2) and reports it too.
\<close>

theorem parseReceiptList_scan_goes_on:
  "watermark [Num 3 \<mapsto> 10] (Num 3) = 10
   \<and> parseReceiptList [Num 3 \<mapsto> 10] (Some ''c1'') (Some 4)
        [\<lparr>closestID = Some 6, innerText = ''Read 2''\<rparr>, \<lparr>closestID = Some 8, innerText = ''Read 1''\<rparr>]
      = Inr [\<lparr>rid = 8, count = Some (Num 1)\<rparr>, \<lparr>rid = 6, count = Some (Num 2)\<rparr>]
   \<and> parseReceiptList [Num 3 \<mapsto> 10] (Some ''c1'') (Some 4)
        [\<lparr>closestID = Some 8, innerText = ''Read 1''\<rparr>]
      = Inr [\<lparr>rid = 8, count = Some (Num 1)\<rparr>]
   \<and> rid \<lparr>rid = 8, count = Some (Num 1)\<rparr> \<le> watermark [Num 3 \<mapsto> 10] (Num 3)"
  by code_simp

subsection \<open>Messages of the whole list\<close>

lemma setMemberTimestamps_inv:
  "0 < i \<Longrightarrow> n = length ms \<Longrightarrow> length vs = n \<Longrightarrow>
   (\<And>j. i \<le> j \<Longrightarrow> j < n \<Longrightarrow> ms ! j = vs ! j) \<Longrightarrow>
   (\<And>j. j < i \<Longrightarrow> j < n \<Longrightarrow> backfilled vs ms j) \<Longrightarrow>
   length (setMemberTimestamps i n ms) = n
   \<and> (\<forall>j < n. backfilled vs (setMemberTimestamps i n ms) j)"
proof (induction i n ms rule: setMemberTimestamps.induct)
  case (1 i n ms)
  note pos = "1.prems"(1) and len = "1.prems"(2) and lenv = "1.prems"(3)
    and rest = "1.prems"(4) and dn = "1.prems"(5)
  show ?case
  proof (cases "i < n")
    case False
    then have "setMemberTimestamps i n ms = ms"
      by (simp add: setMemberTimestamps.simps [of i n ms])
    with False len dn show ?thesis by simp
  next
    case True
    define ms' where "ms' =
      (if member_info (ms ! i) \<noteq> None
       then ms[i := (ms ! i)\<lparr>timestamp := timestamp (ms ! (i - 1))\<rparr>] else ms)"
    have step: "setMemberTimestamps i n ms = setMemberTimestamps (i + 1) n ms'"
      using True by (simp add: setMemberTimestamps.simps [of i n ms] ms'_def)
    have len': "n = length ms'" using len by (simp add: ms'_def)
    have other: "ms' ! j = ms ! j" if "j \<noteq> i" for j
      using that by (simp add: ms'_def)
    have at_i: "ms' ! i =
      (if member_info (ms ! i) \<noteq> None
       then (ms ! i)\<lparr>timestamp := timestamp (ms ! (i - 1))\<rparr> else ms ! i)"
      using True len by (simp add: ms'_def)
    have rest': "ms' ! j = vs ! j" if "i + 1 \<le> j" "j < n" for j
      using that rest [of j] other [of j] by simp
    have done': "backfilled vs ms' j" if "j < i + 1" "j < n" for j
    proof (cases "j = i")
      case True
      have "ms ! i = vs ! i" using rest [of i] \<open>i < n\<close> by simp
      moreover have "ms' ! (i - 1) = ms ! (i - 1)" using pos other [of "i - 1"] by simp
      ultimately show ?thesis using True at_i pos by (simp add: backfilled_def)
    next
      case False
      then have "j < i" using that by simp
      then have "backfilled vs ms j" using dn that by simp
      moreover have "ms' ! j = ms ! j" using False other by simp
      moreover have "ms' ! (j - 1) = ms ! (j - 1)" using \<open>j < i\<close> other [of "j - 1"] by simp
      ultimately show ?thesis by (simp add: backfilled_def)
    qed
    have pos': "0 < i + 1" by simp
    from "1.IH" [OF True pos' len' [unfolded ms'_def] lenv rest' [unfolded ms'_def]
        done' [unfolded ms'_def]]
    show ?thesis using step by (simp add: ms'_def)
  qed
qed

text \<open>
  C8. In the list that \<open>parseMessageList\<close> returns, every member event (a record with
  \<open>member_info\<close> set) that is not the first has the timestamp of the message returned
  just before it. The timestamps are set on the values that the message promises have
  fulfilled with, once all have settled: the list returned is the list of those values, in
  order, each member event after the first with its timestamp replaced.
\<close>

theorem parseMessageList_member_timestamps:
  assumes "parseMessageList m cur children = Inr ms"
  shows "\<exists>ps. collectMessagePromises (filter (\<lambda>c. child_id c > m) children) False [] = Inr ps
      \<and> length ms = length (fulfilledValues ps)
      \<and> (\<forall>j < length ms. backfilled (fulfilledValues ps) ms j)
      \<and> (\<forall>j < length ms. 0 < j \<and> member_info (ms ! j) \<noteq> None \<longrightarrow>
            timestamp (ms ! j) = timestamp (ms ! (j - 1)))"
proof -
  let ?msgList = "filter (\<lambda>c. child_id c > m) children"
  obtain ps where ps: "collectMessagePromises ?msgList False [] = Inr ps"
    and ms: "ms = setMemberTimestamps 1 (length (fulfilledValues ps)) (fulfilledValues ps)"
  proof (cases "?msgList = []")
    case True
    with assms have "ms = []" by (simp add: parseMessageList_def)
    moreover have "setMemberTimestamps 1 0 [] = []"
      by (subst setMemberTimestamps.simps) simp
    ultimately show ?thesis using True that [of "[]"] by simp
  next
    case False
    with assms that show ?thesis
      by (auto simp: parseMessageList_def Let_def split: sum.splits)
  qed
  let ?vs = "fulfilledValues ps"
  have inv: "length (setMemberTimestamps 1 (length ?vs) ?vs) = length ?vs
      \<and> (\<forall>j < length ?vs. backfilled ?vs (setMemberTimestamps 1 (length ?vs) ?vs) j)"
    by (rule setMemberTimestamps_inv) (auto simp: backfilled_def)
  then have len: "length ms = length ?vs" and bf: "\<forall>j < length ms. backfilled ?vs ms j"
    using ms by simp_all
  have "timestamp (ms ! j) = timestamp (ms ! (j - 1))"
    if "j < length ms" "0 < j" "member_info (ms ! j) \<noteq> None" for j
  proof -
    from bf that(1) have b: "backfilled ?vs ms j" by simp
    show ?thesis
    proof (cases "member_info (?vs ! j) \<noteq> None")
      case True
      with b that(2) show ?thesis by (simp add: backfilled_def)
    next
      case False
      with b have "ms ! j = ?vs ! j" by (simp add: backfilled_def)
      with False that(3) show ?thesis by simp
    qed
  qed
  with ps len bf show ?thesis by blast
qed

theorem parseMessageList_member_timestamps_witness:
  "parseMessageList 4 (Some ''c1'')
     [\<lparr>child_id = 3, kind = ContChild (Fulfilled ((textMessage 3 ''old'')\<lparr>timestamp := Some 900\<rparr>))\<rparr>,
      \<lparr>child_id = 5, kind = ContChild (Fulfilled ((textMessage 5 ''hi'')\<lparr>timestamp := Some 1000\<rparr>))\<rparr>,
      \<lparr>child_id = 6, kind = NoticeChild (Some (memberEvent 6 ''Ann'')) None\<rparr>,
      \<lparr>child_id = 7, kind = ContChild Failed\<rparr>,
      \<lparr>child_id = 8, kind = NoticeChild (Some (memberEvent 8 ''Bob'')) None\<rparr>]
   = Inr [(textMessage 5 ''hi'')\<lparr>timestamp := Some 1000\<rparr>,
          (memberEvent 6 ''Ann'')\<lparr>timestamp := Some 1000\<rparr>,
          (memberEvent 8 ''Bob'')\<lparr>timestamp := Some 1000\<rparr>]
   \<and> (\<exists>ps. collectMessagePromises
        (filter (\<lambda>c. child_id c > 4)
          [\<lparr>child_id = 3, kind = ContChild (Fulfilled ((textMessage 3 ''old'')\<lparr>timestamp := Some 900\<rparr>))\<rparr>,
           \<lparr>child_id = 5, kind = ContChild (Fulfilled ((textMessage 5 ''hi'')\<lparr>timestamp := Some 1000\<rparr>))\<rparr>,
           \<lparr>child_id = 6, kind = NoticeChild (Some (memberEvent 6 ''Ann'')) None\<rparr>,
           \<lparr>child_id = 7, kind = ContChild Failed\<rparr>,
           \<lparr>child_id = 8, kind = NoticeChild (Some (memberEvent 8 ''Bob'')) None\<rparr>]) False [] = Inr ps
      \<and> fulfilledValues ps = [(textMessage 5 ''hi'')\<lparr>timestamp := Some 1000\<rparr>,
          memberEvent 6 ''Ann'', memberEvent 8 ''Bob''])"
proof -
  let ?ch = "[\<lparr>child_id = 3, kind = ContChild (Fulfilled ((textMessage 3 ''old'')\<lparr>timestamp := Some 900\<rparr>))\<rparr>,
      \<lparr>child_id = 5, kind = ContChild (Fulfilled ((textMessage 5 ''hi'')\<lparr>timestamp := Some 1000\<rparr>))\<rparr>,
      \<lparr>child_id = 6, kind = NoticeChild (Some (memberEvent 6 ''Ann'')) None\<rparr>,
      \<lparr>child_id = 7, kind = ContChild Failed\<rparr>,
      \<lparr>child_id = 8, kind = NoticeChild (Some (memberEvent 8 ''Bob'')) None\<rparr>]"
  let ?ms = "[(textMessage 5 ''hi'')\<lparr>timestamp := Some 1000\<rparr>,
          (memberEvent 6 ''Ann'')\<lparr>timestamp := Some 1000\<rparr>,
          (memberEvent 8 ''Bob'')\<lparr>timestamp := Some 1000\<rparr>]"
  have p: "parseMessageList 4 (Some ''c1'') ?ch = Inr ?ms"
    by code_simp
  have c: "collectMessagePromises (filter (\<lambda>c. child_id c > 4) ?ch) False []
      = Inr [Fulfilled ((textMessage 5 ''hi'')\<lparr>timestamp := Some 1000\<rparr>),
             Fulfilled (memberEvent 6 ''Ann''), Failed, Fulfilled (memberEvent 8 ''Bob'')]"
    by code_simp
  from parseMessageList_member_timestamps [OF p] obtain ps where
    "collectMessagePromises (filter (\<lambda>c. child_id c > 4) ?ch) False [] = Inr ps"
    by blast
  with c p show ?thesis by auto
qed

subsection \<open>The bridge's own messages\<close>

lemma observe_armed_no_failure:
  assumes "querySelector ownMsg sel = Some se" "hidden se"
  shows "observeOwnMessage ownMsg (promiseOwnMessage t sel None c) =
    ((promiseOwnMessage t sel None c)
       \<lparr>observers := observers c @
           [\<lparr>callback_msgID = Some (data_local_id ownMsg), observed = ind_node se, connected = True\<rparr>],
        visibleSuccessObserver := Some (length (observers c))\<rparr>, True)"
  using assms
  by (simp add: observeOwnMessage_def promiseOwnMessage_def isWaitingForOwnMessage_def
      truthy_def newObserver_def Let_def)

lemma observe_armed_failure:
  assumes "querySelector ownMsg sel = Some se" "hidden se"
    and "fsel \<noteq> []" "querySelector ownMsg fsel = Some fe" "hidden fe"
  shows "observeOwnMessage ownMsg (promiseOwnMessage t sel (Some fsel) c) =
    ((promiseOwnMessage t sel (Some fsel) c)
       \<lparr>observers := observers c @
           [\<lparr>callback_msgID = Some (data_local_id ownMsg), observed = ind_node se, connected = True\<rparr>,
            \<lparr>callback_msgID = None, observed = ind_node fe, connected = True\<rparr>],
        visibleSuccessObserver := Some (length (observers c)),
        visibleFailureObserver := Some (length (observers c) + 1)\<rparr>, True)"
  using assms
  by (simp add: observeOwnMessage_def promiseOwnMessage_def isWaitingForOwnMessage_def
      truthy_def newObserver_def Let_def)

text \<open>The observers after \<open>disconnect\<close>.\<close>

lemma disconnect_fields:
  "promises (disconnect k c) = promises c"
  "timers (disconnect k c) = timers c"
  "length (observers (disconnect k c)) = length (observers c)"
  "effects (disconnect k c) = effects c @ (case k of None \<Rightarrow> [] | Some j \<Rightarrow> [Disconnect j])"
  by (simp_all add: disconnect_def split: option.splits)

lemma disconnect_connected:
  "j < length (observers c) \<Longrightarrow>
   connected (observers (disconnect k c) ! j) = (connected (observers c ! j) \<and> k \<noteq> Some j)"
  by (auto simp: disconnect_def nth_list_update split: option.splits)

lemma idle_promiseOwnMsgReset: "idle (promiseOwnMsgReset c)"
  by (simp add: idle_def promiseOwnMsgReset_def disconnect_def Let_def split: option.splits)

lemma promiseOwnMsgReset_fields:
  "promises (promiseOwnMsgReset c) = promises c"
  "timers (promiseOwnMsgReset c) = timers c"
  "length (observers (promiseOwnMsgReset c)) = length (observers c)"
  "effects (promiseOwnMsgReset c) =
     effects c @ (case visibleSuccessObserver c of None \<Rightarrow> [] | Some j \<Rightarrow> [Disconnect j])
       @ (case visibleFailureObserver c of None \<Rightarrow> [] | Some j \<Rightarrow> [Disconnect j])"
  by (simp_all add: promiseOwnMsgReset_def Let_def disconnect_fields
      disconnect_def [of "visibleSuccessObserver c"] disconnect_def [of "visibleFailureObserver c"]
      split: option.splits)

lemma promiseOwnMsgReset_connected:
  "j < length (observers c) \<Longrightarrow>
   connected (observers (promiseOwnMsgReset c) ! j) =
     (connected (observers c ! j) \<and> visibleSuccessObserver c \<noteq> Some j
      \<and> visibleFailureObserver c \<noteq> Some j)"
  by (auto simp: promiseOwnMsgReset_def Let_def disconnect_def nth_list_update split: option.splits)

lemma cleanedUp_promiseOwnMsgReset:
  "list_all (\<lambda>j. j < length (observers c)
      \<and> (visibleSuccessObserver c = Some j \<or> visibleFailureObserver c = Some j)) obs \<Longrightarrow>
   cleanedUp obs (promiseOwnMsgReset c)"
  unfolding cleanedUp_def
  by (induction obs)
     (auto simp: idle_promiseOwnMsgReset promiseOwnMsgReset_fields promiseOwnMsgReset_connected)

lemma settle_fields:
  "idle (settle p v c) = idle c"
  "observers (settle p v c) = observers c"
  "effects (settle p v c) = effects c"
  "timers (settle p v c) = timers c"
  by (simp_all add: settle_def idle_def)

lemma settle_pending:
  "p < length (promises c) \<Longrightarrow> promises c ! p = Pending \<Longrightarrow> promises (settle p v c) ! p = v"
  by (simp add: settle_def)

lemma callResolve_fields:
  "idle (callResolve p m c) = idle c"
  "observers (callResolve p m c) = observers c"
  "effects (callResolve p m c) = effects c @ [CallResolve p m]"
  "p < length (promises c) \<Longrightarrow> promises c ! p = Pending \<Longrightarrow>
     promises (callResolve p m c) ! p = ResolvedWith m"
  by (simp_all add: callResolve_def settle_def idle_def)

lemma callReject_fields:
  "idle (callReject p fe c) = idle c"
  "observers (callReject p fe c) = observers c"
  "effects (callReject p fe c) = effects c @ [CallReject p fe]"
  "p < length (promises c) \<Longrightarrow> promises c ! p = Pending \<Longrightarrow>
     promises (callReject p fe c) ! p = RejectedWith fe"
  by (simp_all add: callReject_def settle_def idle_def)

lemma cleanedUp_call:
  "cleanedUp obs (callResolve p m c) = cleanedUp obs c"
  "cleanedUp obs (callReject p fe c) = cleanedUp obs c"
  by (simp_all add: cleanedUp_def callResolve_fields callReject_fields)

lemma clearTimeout_fields:
  "promises (clearTimeout k c) = promises c"
  "observers (clearTimeout k c) = observers c"
  "effects (clearTimeout k c) = effects c @ [ClearTimeout k]"
  "visibleSuccessObserver (clearTimeout k c) = visibleSuccessObserver c"
  "visibleFailureObserver (clearTimeout k c) = visibleFailureObserver c"
  by (simp_all add: clearTimeout_def)


lemma resolveOwnMessage_settles:
  assumes "promiseOwnMsgResolve w = Some p" "p < length (promises w)" "promises w ! p = Pending"
  shows "resolveOwnMessage m w =
           callResolve p m (promiseOwnMsgReset (clearTimeout (promiseOwnMsgTimeoutID w) w))"
    and "promises (resolveOwnMessage m w) ! p = ResolvedWith m"
    and "idle (resolveOwnMessage m w)"
    and "effects (resolveOwnMessage m w) =
           effects w @ [ClearTimeout (promiseOwnMsgTimeoutID w)]
           @ (case visibleSuccessObserver w of None \<Rightarrow> [] | Some j \<Rightarrow> [Disconnect j])
           @ (case visibleFailureObserver w of None \<Rightarrow> [] | Some j \<Rightarrow> [Disconnect j])
           @ [CallResolve p m]"
  using assms
  by (simp_all add: resolveOwnMessage_def callResolve_fields promiseOwnMsgReset_fields
      clearTimeout_fields idle_promiseOwnMsgReset)

lemma rejectOwnMessage_settles:
  assumes "promiseOwnMsgReject w = Some p" "p < length (promises w)" "promises w ! p = Pending"
  shows "rejectOwnMessage fe w = callReject p fe (promiseOwnMsgReset w)"
    and "promises (rejectOwnMessage fe w) ! p = RejectedWith fe"
    and "idle (rejectOwnMessage fe w)"
    and "effects (rejectOwnMessage fe w) =
           effects w
           @ (case visibleSuccessObserver w of None \<Rightarrow> [] | Some j \<Rightarrow> [Disconnect j])
           @ (case visibleFailureObserver w of None \<Rightarrow> [] | Some j \<Rightarrow> [Disconnect j])
           @ [CallReject p fe]"
  using assms
  by (simp_all add: rejectOwnMessage_def callReject_fields promiseOwnMsgReset_fields
      idle_promiseOwnMsgReset)

lemma watches_success:
  assumes "watches w p tid t so m obs" "m \<noteq> 0"
  shows "observerFires so [False] w =
           callResolve p m (promiseOwnMsgReset (clearTimeout (Some tid) w))"
    and "cleanedUp obs (promiseOwnMsgReset (clearTimeout (Some tid) w))"
    and "promises (observerFires so [False] w) ! p = ResolvedWith m"
    and "cleanedUp obs (observerFires so [False] w)"
proof -
  from assms have w: "promiseOwnMsgResolve w = Some p" "p < length (promises w)"
    "promises w ! p = Pending" "promiseOwnMsgTimeoutID w = Some tid"
    by (simp_all add: watches_def)
  from assms(1) have la: "list_all (\<lambda>j. j < length (observers w)
      \<and> (visibleSuccessObserver w = Some j \<or> visibleFailureObserver w = Some j)) obs"
    unfolding watches_def by blast
  have fire: "observerFires so [False] w = resolveOwnMessage m w"
    using assms by (simp add: observerFires_def watches_def)
  show eq: "observerFires so [False] w =
           callResolve p m (promiseOwnMsgReset (clearTimeout (Some tid) w))"
    using fire resolveOwnMessage_settles(1) [OF w(1-3), of m] w(4) by simp
  show "promises (observerFires so [False] w) ! p = ResolvedWith m"
    using fire resolveOwnMessage_settles(2) [OF w(1-3), of m] by simp
  show cl: "cleanedUp obs (promiseOwnMsgReset (clearTimeout (Some tid) w))"
    by (rule cleanedUp_promiseOwnMsgReset) (use la in \<open>simp add: clearTimeout_fields\<close>)
  show "cleanedUp obs (observerFires so [False] w)"
    using cl by (simp add: eq cleanedUp_call)
qed

lemma watches_timeout:
  assumes "watches w p tid t so m obs"
  shows "timeoutFires tid w =
           callReject p None (promiseOwnMsgReset (w\<lparr>timers := (timers w)[tid := (t, False)]\<rparr>))"
    and "cleanedUp obs (promiseOwnMsgReset (w\<lparr>timers := (timers w)[tid := (t, False)]\<rparr>))"
    and "promises (timeoutFires tid w) ! p = RejectedWith None"
    and "cleanedUp obs (timeoutFires tid w)"
proof -
  let ?w = "w\<lparr>timers := (timers w)[tid := (t, False)]\<rparr>"
  from assms have w: "promiseOwnMsgReject ?w = Some p" "p < length (promises ?w)"
    "promises ?w ! p = Pending"
    by (simp_all add: watches_def)
  from assms(1) have la: "list_all (\<lambda>j. j < length (observers w)
      \<and> (visibleSuccessObserver w = Some j \<or> visibleFailureObserver w = Some j)) obs"
    unfolding watches_def by blast
  have fire: "timeoutFires tid w = rejectOwnMessage None ?w"
    using assms by (simp add: timeoutFires_def watches_def Let_def)
  show eq: "timeoutFires tid w = callReject p None (promiseOwnMsgReset ?w)"
    using fire rejectOwnMessage_settles(1) [OF w, of None] by simp
  show "promises (timeoutFires tid w) ! p = RejectedWith None"
    using fire rejectOwnMessage_settles(2) [OF w, of None] by simp
  show cl: "cleanedUp obs (promiseOwnMsgReset ?w)"
    by (rule cleanedUp_promiseOwnMsgReset) (use la in simp)
  show "cleanedUp obs (timeoutFires tid w)"
    using cl by (simp add: eq cleanedUp_call)
qed

lemma watches_failure:
  assumes "watches w p tid t so m obs" "visibleFailureObserver w = Some sf"
    "sf < length (observers w)" "callback_msgID (observers w ! sf) = None"
    "connected (observers w ! sf)" "observed (observers w ! sf) = node"
  shows "observerFires sf [False] w = callReject p (Some node) (promiseOwnMsgReset w)"
    and "cleanedUp obs (promiseOwnMsgReset w)"
    and "promises (observerFires sf [False] w) ! p = RejectedWith (Some node)"
    and "cleanedUp obs (observerFires sf [False] w)"
proof -
  from assms have w: "promiseOwnMsgReject w = Some p" "p < length (promises w)"
    "promises w ! p = Pending"
    by (simp_all add: watches_def)
  from assms(1) have la: "list_all (\<lambda>j. j < length (observers w)
      \<and> (visibleSuccessObserver w = Some j \<or> visibleFailureObserver w = Some j)) obs"
    unfolding watches_def by blast
  have fire: "observerFires sf [False] w = rejectOwnMessage (Some node) w"
    using assms by (simp add: observerFires_def)
  show eq: "observerFires sf [False] w = callReject p (Some node) (promiseOwnMsgReset w)"
    using fire rejectOwnMessage_settles(1) [OF w, of "Some node"] by simp
  show "promises (observerFires sf [False] w) ! p = RejectedWith (Some node)"
    using fire rejectOwnMessage_settles(2) [OF w, of "Some node"] by simp
  show cl: "cleanedUp obs (promiseOwnMsgReset w)"
    by (rule cleanedUp_promiseOwnMsgReset) (use la in simp)
  show "cleanedUp obs (observerFires sf [False] w)"
    using cl by (simp add: eq cleanedUp_call)
qed

lemma watches_no_failure:
  assumes "querySelector ownMsg sel = Some se" "hidden se"
  shows "watches (fst (observeOwnMessage ownMsg (promiseOwnMessage t sel None c)))
           (length (promises c)) (length (timers c)) t (length (observers c))
           (data_local_id ownMsg) [length (observers c)]"
  unfolding observe_armed_no_failure [OF assms]
  by (simp add: watches_def promiseOwnMessage_def)

lemma watches_with_failure:
  assumes "querySelector ownMsg sel = Some se" "hidden se"
    and "fsel \<noteq> []" "querySelector ownMsg fsel = Some fe" "hidden fe"
  shows "watches (fst (observeOwnMessage ownMsg (promiseOwnMessage t sel (Some fsel) c)))
           (length (promises c)) (length (timers c)) t (length (observers c))
           (data_local_id ownMsg) [length (observers c), length (observers c) + 1]"
  unfolding observe_armed_failure [OF assms]
  by (simp add: watches_def promiseOwnMessage_def nth_append)

lemma timeout_unmatched:
  "promises (timeoutFires (length (timers c)) (promiseOwnMessage t sel f c)) ! length (promises c)
     = RejectedWith None
   \<and> idle (timeoutFires (length (timers c)) (promiseOwnMessage t sel f c))"
proof -
  let ?a = "promiseOwnMessage t sel f c"
  let ?w = "?a\<lparr>timers := (timers ?a)[length (timers c) := (t, False)]\<rparr>"
  have w: "promiseOwnMsgReject ?w = Some (length (promises c))"
    "length (promises c) < length (promises ?w)" "promises ?w ! length (promises c) = Pending"
    by (simp_all add: promiseOwnMessage_def)
  have fire: "timeoutFires (length (timers c)) ?a = rejectOwnMessage None ?w"
    by (simp add: timeoutFires_def promiseOwnMessage_def Let_def)
  show ?thesis
    using rejectOwnMessage_settles(2,3) [OF w, of None] fire by simp
qed

text \<open>
  What holds of one send taken alone, from any state of the controller. After
  \<open>promiseOwnMessage\<close> has armed it and \<open>observeOwnMessage\<close> has matched one element
  (its success indicator, and its failure indicator when a failure selector was given,
  present and hidden) whose ID is not 0, with the promise \<open>p\<close>, the timer \<open>tid\<close> and the
  observers \<open>obs\<close> made by these two calls:
  \<^item> the success indicator becoming visible resolves \<open>p\<close> with the element's ID;
  \<^item> the failure indicator becoming visible rejects \<open>p\<close> with the indicator;
  \<^item> the timer \<open>tid\<close> rejects \<open>p\<close> with \<^verbatim>\<open>null\<close>, also when no element was matched;
  \<^item> on each path the resolver or rejecter is called in a state that is already idle,
    with the observers \<open>obs\<close> disconnected.
  Nothing is said here of the timers and the observers that earlier calls have left, nor
  of a second element matched for the same send.
\<close>

lemma first_match_settlement:
  assumes "querySelector ownMsg sel = Some se" and "hidden se"
    and "case f of None \<Rightarrow> True
         | Some fsel \<Rightarrow> fsel \<noteq> [] \<and> querySelector ownMsg fsel = Some fe \<and> hidden fe"
    and "data_local_id ownMsg \<noteq> 0"
  shows "let p = length (promises c); so = length (observers c); tid = length (timers c);
             armed = promiseOwnMessage t sel f c;
             watching = fst (observeOwnMessage ownMsg armed);
             obs = (case f of None \<Rightarrow> [so] | Some fsel \<Rightarrow> [so, so + 1]);
             succeeded = observerFires so [False] watching;
             failed = observerFires (so + 1) [False] watching;
             due = watching\<lparr>timers := (timers watching)[tid := (t, False)]\<rparr>;
             timedOut = timeoutFires tid watching
         in snd (observeOwnMessage ownMsg armed)
            \<and> promises watching ! p = Pending
            \<and> timers watching ! tid = (t, True)
            \<and> succeeded = callResolve p (data_local_id ownMsg)
                            (promiseOwnMsgReset (clearTimeout (Some tid) watching))
            \<and> cleanedUp obs (promiseOwnMsgReset (clearTimeout (Some tid) watching))
            \<and> promises succeeded ! p = ResolvedWith (data_local_id ownMsg)
            \<and> cleanedUp obs succeeded
            \<and> (f \<noteq> None \<longrightarrow>
                  failed = callReject p (Some (ind_node fe)) (promiseOwnMsgReset watching)
                  \<and> cleanedUp obs (promiseOwnMsgReset watching)
                  \<and> promises failed ! p = RejectedWith (Some (ind_node fe))
                  \<and> cleanedUp obs failed)
            \<and> timedOut = callReject p None (promiseOwnMsgReset due)
            \<and> cleanedUp obs (promiseOwnMsgReset due)
            \<and> promises timedOut ! p = RejectedWith None
            \<and> cleanedUp obs timedOut
            \<and> promises (timeoutFires tid armed) ! p = RejectedWith None
            \<and> idle (timeoutFires tid armed)"
proof (cases f)
  case None
  let ?w = "fst (observeOwnMessage ownMsg (promiseOwnMessage t sel None c))"
  note w = watches_no_failure [OF assms(1,2), of t c]
  have matched: "snd (observeOwnMessage ownMsg (promiseOwnMessage t sel None c))"
    by (simp add: observe_armed_no_failure [OF assms(1,2)])
  have pend: "promises ?w ! length (promises c) = Pending"
    "timers ?w ! length (timers c) = (t, True)"
    using w by (simp_all add: watches_def)
  show ?thesis
    unfolding None Let_def
    using matched pend watches_success [OF w assms(4)] watches_timeout [OF w]
      timeout_unmatched [of c t sel None]
    by simp
next
  case (Some fsel)
  with assms(3) have f: "fsel \<noteq> []" "querySelector ownMsg fsel = Some fe" "hidden fe"
    by simp_all
  let ?a = "promiseOwnMessage t sel (Some fsel) c"
  let ?w = "fst (observeOwnMessage ownMsg ?a)"
  note w = watches_with_failure [OF assms(1,2) f, of t c]
  have matched: "snd (observeOwnMessage ownMsg ?a)"
    by (simp add: observe_armed_failure [OF assms(1,2) f])
  have pend: "promises ?w ! length (promises c) = Pending"
    "timers ?w ! length (timers c) = (t, True)"
    using w by (simp_all add: watches_def)
  have fo: "visibleFailureObserver ?w = Some (length (observers c) + 1)"
    "length (observers c) + 1 < length (observers ?w)"
    "callback_msgID (observers ?w ! (length (observers c) + 1)) = None"
    "connected (observers ?w ! (length (observers c) + 1))"
    "observed (observers ?w ! (length (observers c) + 1)) = ind_node fe"
    unfolding observe_armed_failure [OF assms(1,2) f]
    by (simp_all add: promiseOwnMessage_def nth_append)
  show ?thesis
    unfolding Some Let_def
    using matched pend watches_success [OF w assms(4)] watches_timeout [OF w]
      watches_failure [OF w fo] timeout_unmatched [of c t sel "Some fsel"]
    by simp
qed

lemma first_match_settlement_example:
  "querySelector sentElement ''.ok'' = Some \<lparr>ind_node = 7, hidden = True\<rparr>
   \<and> querySelector sentElement ''.bad'' = Some \<lparr>ind_node = 8, hidden = True\<rparr>
   \<and> data_local_id sentElement \<noteq> 0
   \<and> snd (observeOwnMessage sentElement (promiseOwnMessage 1000 ''.ok'' (Some ''.bad'') newController))
   \<and> promises (observerFires 0 [False]
        (fst (observeOwnMessage sentElement
           (promiseOwnMessage 1000 ''.ok'' (Some ''.bad'') newController)))) ! 1 = ResolvedWith 12
   \<and> promises (observerFires 1 [False]
        (fst (observeOwnMessage sentElement
           (promiseOwnMessage 1000 ''.ok'' (Some ''.bad'') newController)))) ! 1 = RejectedWith (Some 8)
   \<and> promises (timeoutFires 0
        (fst (observeOwnMessage sentElement
           (promiseOwnMessage 1000 ''.ok'' (Some ''.bad'') newController)))) ! 1 = RejectedWith None"
proof -
  have h1: "querySelector sentElement ''.ok'' = Some \<lparr>ind_node = 7, hidden = True\<rparr>"
    by (simp add: sentElement_def)
  have h2: "hidden \<lparr>ind_node = 7, hidden = True\<rparr>" by simp
  have h3: "case Some ''.bad'' of None \<Rightarrow> True
         | Some fsel \<Rightarrow> fsel \<noteq> [] \<and> querySelector sentElement fsel = Some \<lparr>ind_node = 8, hidden = True\<rparr>
             \<and> hidden \<lparr>ind_node = 8, hidden = True\<rparr>"
    by (simp add: sentElement_def)
  have h4: "data_local_id sentElement \<noteq> 0" by (simp add: sentElement_def)
  have len: "length (promises newController) = 1" "length (observers newController) = 0"
    "length (timers newController) = 0" "data_local_id sentElement = 12"
    by (simp_all add: newController_def sentElement_def)
  have h5: "querySelector sentElement ''.bad'' = Some \<lparr>ind_node = 8, hidden = True\<rparr>"
    by (simp add: sentElement_def)
  note t = first_match_settlement [OF h1 h2 h3 h4, of newController 1000,
      unfolded Let_def len add_0 option.simps Indicator.simps]
  from t have "Some ''.bad'' \<noteq> None \<longrightarrow>
      promises (observerFires 1 [False]
        (fst (observeOwnMessage sentElement
           (promiseOwnMessage 1000 ''.ok'' (Some ''.bad'') newController)))) ! 1 = RejectedWith (Some 8)"
    by blast
  then have failed: "promises (observerFires 1 [False]
        (fst (observeOwnMessage sentElement
           (promiseOwnMessage 1000 ''.ok'' (Some ''.bad'') newController)))) ! 1 = RejectedWith (Some 8)"
    by simp
  from t h1 h5 h4 failed show ?thesis by blast
qed

text \<open>
  C7. The claim: after \<open>promiseOwnMessage\<close> arms a send, the success indicator of the
  matched element becoming visible resolves the promise with the element's ID, the failure
  indicator becoming visible rejects it, the timeout rejects it if neither happens within
  the limit, and every settlement leaves nothing of the send behind. The code departs from
  it: \<open>rejectOwnMessage\<close> does not clear the timer (\<open>resolveOwnMessage\<close> does), and
  \<open>promiseOwnMessage\<close> does not clear the previous one. A send is armed with a limit of
  10000 ms, its element is matched, and its failure indicator becomes visible: the promise
  1 is rejected and the timer 0 stays due. A second send is armed with the same limit (the
  promise 2, the timer 1) and the element 13 is matched for it. The timer 0 comes due
  first and rejects the promise 2, while the timer 1 of that send is still due; the success
  indicator of the element 13 becoming visible afterwards changes nothing, where without
  the timer 0 it would have resolved the promise 2 with 13.
\<close>

theorem failed_send_timer_rejects_next_send:
  "let armed = promiseOwnMessage 10000 ''.ok'' (Some ''.bad'') newController;
       watching = fst (observeOwnMessage sentElement armed);
       failed = observerFires 1 [False] watching;
       armed' = promiseOwnMessage 10000 ''.ok'' (Some ''.bad'') failed;
       watching' = fst (observeOwnMessage nextElement armed');
       early = timeoutFires 0 watching';
       late = observerFires 2 [False] early
   in snd (observeOwnMessage sentElement armed)
      \<and> timers (observerFires 0 [False] watching) = [(10000, False)]
      \<and> promises failed ! 1 = RejectedWith (Some 8)
      \<and> effects failed = [Disconnect 0, Disconnect 1, CallReject 1 (Some 8)]
      \<and> timers failed = [(10000, True)]
      \<and> snd (observeOwnMessage nextElement armed')
      \<and> ownMsgPromise watching' = 2
      \<and> promises watching' ! 2 = Pending
      \<and> promiseOwnMsgTimeoutID watching' = Some 1
      \<and> timers watching' = [(10000, True), (10000, True)]
      \<and> promises early ! 2 = RejectedWith None
      \<and> timers early = [(10000, False), (10000, True)]
      \<and> promises (observerFires 2 [False] watching') ! 2 = ResolvedWith 13
      \<and> late = early
      \<and> promises late ! 2 = RejectedWith None"
  by code_simp

text \<open>
  A second departure: \<open>observeOwnMessage\<close> stores the new observers over the old ones
  without disconnecting them. When two elements are matched for one send, the settlement
  disconnects the observers of the second only: the observers 0 and 1 stay connected after
  the promise has been resolved, and once the next send is armed, the success indicator
  of the first element becoming visible resolves that send with the ID 12, with no element
  matched for it.
\<close>

lemma second_match_leaves_observers:
  "let armed = promiseOwnMessage 10000 ''.ok'' (Some ''.bad'') newController;
       first = fst (observeOwnMessage sentElement armed);
       second = fst (observeOwnMessage nextElement first);
       settled = observerFires 2 [False] second;
       armed' = promiseOwnMessage 10000 ''.ok'' (Some ''.bad'') settled;
       wrong = observerFires 0 [False] armed'
   in snd (observeOwnMessage sentElement armed)
      \<and> visibleSuccessObserver first = Some 0 \<and> visibleFailureObserver first = Some 1
      \<and> snd (observeOwnMessage nextElement first)
      \<and> visibleSuccessObserver second = Some 2 \<and> visibleFailureObserver second = Some 3
      \<and> map connected (observers second) = [True, True, True, True]
      \<and> promises settled ! 1 = ResolvedWith 13
      \<and> idle settled
      \<and> effects settled = [ClearTimeout (Some 0), Disconnect 2, Disconnect 3, CallResolve 1 13]
      \<and> map connected (observers settled) = [True, True, False, False]
      \<and> \<not> cleanedUp [0, 1, 2, 3] settled
      \<and> promises armed' ! 2 = Pending
      \<and> promises wrong ! 2 = ResolvedWith 12"
  by code_simp

text \<open>
  And \<^verbatim>\<open>!!msgID\<close> takes the ID 0 for no ID: the success indicator of an element with the
  ID 0 becoming visible rejects the promise, with that indicator, and leaves the timer due.
\<close>

lemma success_of_ID_0_rejects:
  "let armed = promiseOwnMessage 10000 ''.ok'' None newController;
       watching = fst (observeOwnMessage zeroElement armed);
       succeeded = observerFires 0 [False] watching
   in snd (observeOwnMessage zeroElement armed)
      \<and> observed (observers watching ! 0) = 27
      \<and> callback_msgID (observers watching ! 0) = Some 0
      \<and> promises succeeded ! 1 = RejectedWith (Some 27)
      \<and> timers succeeded = [(10000, True)]"
  by code_simp

end
